theory Spec2Isabelle
  imports Complex_Main
begin

section \<open>Values, candles, orders\<close>

text \<open>
  The engine is the class \<open>Debut\<close> of the source. JavaScript values that the engine only
  copies or compares are kept as \<open>jsval\<close>; an object whose keys are looked up by name
  (the options) is a map from key to value, and reading an absent key gives \<open>Undefined\<close>.
  A number is a real: the engine compares numbers and copies them, and where it
  computes with them (the lot count of an order) the operators are parameters.
\<close>

datatype jsval = Undefined | Num real | Str string | Bool bool

type_synonym options = "string \<rightharpoonup> jsval"

definition getProp :: "options \<Rightarrow> string \<Rightarrow> jsval" where
  "getProp obj k = (case obj k of None \<Rightarrow> Undefined | Some v \<Rightarrow> v)"

datatype order_type = BUY | SELL

text \<open>
  Modelled from the spec: \<open>orders.inverseType\<close> of the plugin utilities is not part of the
  source file; the spec says the closing request has the "inverted side".
\<close>

fun inverseType :: "order_type \<Rightarrow> order_type" where
  "inverseType BUY = SELL"
| "inverseType SELL = BUY"

text \<open>
  A candle \<open>{o, h, l, c, v, time}\<close>; the field names carry the prefix \<open>candle_\<close>.
  A tick is a candle.
\<close>

record candle =
  candle_o :: real
  candle_h :: real
  candle_l :: real
  candle_c :: real
  candle_v :: real
  candle_time :: real

record instrument =
  instrument_ticker :: jsval
  instrument_figi :: jsval
  instrument_lot :: jsval
  instrument_pipSize :: jsval
  instrument_id :: jsval

text \<open>
  One record for \<open>PendingOrder\<close> and \<open>ExecutedOrder\<close>. The test \<open>'orderId' in closing\<close>
  asks whether the key is present, so \<open>orderId\<close> is optional; the other keys that an
  object may lack read as \<open>Undefined\<close>; a missing \<open>processing\<close> flag is falsy.
\<close>

record order =
  cid :: real
  broker :: jsval
  type :: order_type
  ticker :: jsval
  figi :: jsval
  currency :: jsval
  interval :: jsval
  author :: string
  price :: real
  lots :: jsval
  lotSize :: jsval
  pipSize :: jsval
  close :: bool
  openPrice :: jsval
  openId :: jsval
  sandbox :: jsval
  learning :: jsval
  time :: real
  margin :: jsval
  futures :: jsval
  instrumentType :: jsval
  lotsMultiplier :: jsval
  equityLevel :: jsval
  orderId :: "jsval option"
  executedLots :: jsval
  processing :: bool

section \<open>Errors and observable events\<close>

datatype error_env = Core | History

text \<open>
  The text of a \<open>DebutError\<close> message is kept in structured form:
  \<open>OrderPlace iso e\<close> is \<open>`${iso} Error Order Place ${e.message}`\<close>,
  \<open>OrderClose iso e\<close> is the message of the close path (ISO date, a fixed Russian
  phrase meaning "order close error", and the error \<open>e\<close>), and \<open>FuturesOnlyBinance\<close>
  is \<open>'Futures are supported only on "Binance" broker'\<close>.

  A value that is thrown, or that a promise is rejected with: \<open>TypeError\<close> is the
  error of a property read on \<open>undefined\<close>, \<open>Thrown m\<close> is an \<open>Error\<close> with message
  \<open>m\<close>, and \<open>Nullish\<close> is the value \<open>undefined\<close> or \<open>null\<close>, which JavaScript
  allows as a thrown value and as a rejection reason and on which a property read
  throws a \<open>TypeError\<close>.
\<close>

datatype js_error =
    TypeError
  | Thrown string
  | Nullish
  | DebutError error_env message
and message =
    OrderPlace string js_error
  | OrderClose string js_error
  | FuturesOnlyBinance

datatype hook =
    onStart | onBeforeTick | onTick | onCandle | onAfterCandle
  | onBeforeOpen | onOpen | onBeforeClose | onClose | onDispose

datatype hook_args =
    NoArgs
  | TickArgs candle
  | CandleArgs "candle option"
  | OrderArgs order
  | CloseArgs order order

text \<open>
  Order objects are mutated in place (\<open>closing.processing = true\<close>) and searched by
  identity (\<open>indexOf\<close>), so they live in a store: the heap is a list of objects, a
  reference is an index into it, and the order book \<open>this.orders\<close> is a list of
  references. A \<open>book\<close> is a snapshot of both.
\<close>

type_synonym ref = nat
type_synonym book = "order list \<times> ref list"

text \<open>
  Everything the engine does to the outside is recorded, in order, in a trace:
  the invocation of plugin number \<open>i\<close> on a hook with its arguments and its outcome
  (\<open>Inl\<close> a thrown error, \<open>Inr\<close> the truthiness of the returned value), a submission
  to \<open>Transport.placeOrder\<close> with its outcome, and a console line (an error object, or
  the warning \<open>'Unknown order for replace'\<close> with its two arguments). Hook and transport
  calls are the suspension points of the engine; each carries the order book as it
  was at that moment.
\<close>

datatype console_level = Warn | Log

datatype event =
    Hook nat hook hook_args "js_error + bool" book
  | PlaceOrder order "js_error + order" book
  | Console console_level js_error
  | ConsoleUnknownOrder "ref list" order

record debut =
  name :: string
  opts :: options
  instrument :: "instrument option"
  learning :: jsval
  candles :: "candle list"
  updateCandlesSwapped :: bool
  heap :: "order list"
  orders :: "ref list"
  trace :: "event list"

text \<open>
  Plugins, the transport and the JavaScript runtime are the environment. Each is a
  deterministic function of the engine state it is called in; the state holds the
  trace of all earlier calls, so an answer may depend on the whole history. Plugins
  read the state and do not write it. A plugin implements any subset of the hooks.
\<close>

type_synonym handler = "debut \<Rightarrow> hook_args \<Rightarrow> js_error + bool"
type_synonym plugin = "hook \<rightharpoonup> handler"

record transport =
  placeOrder :: "debut \<Rightarrow> order \<Rightarrow> js_error + order"
  prepareLots :: "jsval \<Rightarrow> jsval \<Rightarrow> jsval"

text \<open>
  \<open>mathRandom\<close> is \<open>Math.random()\<close>, \<open>dateNow\<close> is \<open>Date.now()\<close>, \<open>toISOString\<close> is
  \<open>new Date().toISOString()\<close>; \<open>times\<close> and \<open>divide\<close> are the floating-point
  operators \<open>*\<close> and \<open>/\<close>, left uninterpreted. The correlation id
  \<open>Math.random() * 1e17\<close> is the product over the reals; the theorems use of it
  only whether it equals the id of another order.
\<close>

record runtime =
  mathRandom :: "debut \<Rightarrow> real"
  dateNow :: "debut \<Rightarrow> real"
  toISOString :: "debut \<Rightarrow> string"
  times :: "jsval \<Rightarrow> jsval \<Rightarrow> jsval"
  divide :: "jsval \<Rightarrow> jsval \<Rightarrow> jsval"

type_synonym 'a result = "(js_error + 'a) \<times> debut"

definition emit :: "event \<Rightarrow> debut \<Rightarrow> debut" where
  "emit e s = s\<lparr>trace := trace s @ [e]\<rparr>"

definition snapshot :: "debut \<Rightarrow> book" where
  "snapshot s = (heap s, orders s)"

definition lookup :: "order list \<Rightarrow> ref \<Rightarrow> order option" where
  "lookup h r = (if r < length h then Some (h ! r) else None)"

section \<open>The plugin hook pipeline\<close>

text \<open>
  Modelled from the spec: the class \<open>PluginDriver\<close> (\<open>asyncReduce\<close>, \<open>asyncSkipReduce\<close>)
  is imported by the source and is not part of it. Section 4.1 of the spec: hooks run
  strictly in registration order, one after the other; the side-effecting reduce
  ignores the returned values; the skip-reduce stops at the first truthy value and
  reports skip; a failure is not caught and no later hook is invoked for that call.
  Here the skip-reduce over the plugins numbered from \<open>i\<close>; a plugin that does
  not implement the hook is passed over.
\<close>

fun asyncSkipReduceFrom :: "nat \<Rightarrow> plugin list \<Rightarrow> hook \<Rightarrow> hook_args \<Rightarrow> debut \<Rightarrow> bool result" where
  "asyncSkipReduceFrom i [] hk a s = (Inr False, s)"
| "asyncSkipReduceFrom i (p # ps) hk a s =
     (case p hk of
        None \<Rightarrow> asyncSkipReduceFrom (Suc i) ps hk a s
      | Some f \<Rightarrow>
          (case f s a of
             Inl e \<Rightarrow> (Inl e, emit (Hook i hk a (Inl e) (snapshot s)) s)
           | Inr skip \<Rightarrow>
               if skip then (Inr True, emit (Hook i hk a (Inr True) (snapshot s)) s)
               else asyncSkipReduceFrom (Suc i) ps hk a
                      (emit (Hook i hk a (Inr False) (snapshot s)) s)))"

text \<open>
  Modelled from the spec: \<open>PluginDriver.asyncSkipReduce\<close>, the skip-reduce of section
  4.1 over all registered plugins, the first of which has number 0.
\<close>

definition asyncSkipReduce :: "plugin list \<Rightarrow> hook \<Rightarrow> hook_args \<Rightarrow> debut \<Rightarrow> bool result" where
  "asyncSkipReduce ps hk a s = asyncSkipReduceFrom 0 ps hk a s"

text \<open>
  Modelled from the spec: the side-effecting reduce of section 4.1 over the plugins
  numbered from \<open>i\<close>: every hook is invoked, in order, and its value is ignored; a
  failure ends the call.
\<close>

fun asyncReduceFrom :: "nat \<Rightarrow> plugin list \<Rightarrow> hook \<Rightarrow> hook_args \<Rightarrow> debut \<Rightarrow> unit result" where
  "asyncReduceFrom i [] hk a s = (Inr (), s)"
| "asyncReduceFrom i (p # ps) hk a s =
     (case p hk of
        None \<Rightarrow> asyncReduceFrom (Suc i) ps hk a s
      | Some f \<Rightarrow>
          (case f s a of
             Inl e \<Rightarrow> (Inl e, emit (Hook i hk a (Inl e) (snapshot s)) s)
           | Inr v \<Rightarrow> asyncReduceFrom (Suc i) ps hk a
                      (emit (Hook i hk a (Inr v) (snapshot s)) s)))"

text \<open>
  Modelled from the spec: \<open>PluginDriver.asyncReduce\<close>, the side-effecting reduce of
  section 4.1 over all registered plugins.
\<close>

definition asyncReduce :: "plugin list \<Rightarrow> hook \<Rightarrow> hook_args \<Rightarrow> debut \<Rightarrow> unit result" where
  "asyncReduce ps hk a s = asyncReduceFrom 0 ps hk a s"

section \<open>Construction\<close>

definition defaultOptions :: options where
  "defaultOptions =
     [''instrumentType'' \<mapsto> Str ''SPOT'',
      ''fee'' \<mapsto> Num (3 / 10000),
      ''lotsMultiplier'' \<mapsto> Num 1,
      ''equityLevel'' \<mapsto> Num 1]"

definition createCoreError :: "message \<Rightarrow> js_error" where
  "createCoreError msg = DebutError Core msg"

definition validateConfig :: "debut \<Rightarrow> js_error + unit" where
  "validateConfig s =
     (if getProp (opts s) ''broker'' \<noteq> Str ''binance''
         \<and> getProp (opts s) ''instrumentType'' = Str ''FUTURES''
      then Inl (createCoreError FuturesOnlyBinance)
      else Inr ())"

text \<open>
  The constructor: \<open>this.opts = { ...defaultOptions, ...opts }\<close>, then \<open>validateConfig\<close>.
  The first argument is the name of the constructing class (\<open>getName\<close>).
\<close>

definition constructor :: "string \<Rightarrow> options \<Rightarrow> js_error + debut" where
  "constructor nm input =
     (let s = \<lparr>name = nm, opts = defaultOptions ++ input, instrument = None,
               learning = Undefined, candles = [], updateCandlesSwapped = False,
               heap = [], orders = [], trace = []\<rparr>
      in case validateConfig s of Inl e \<Rightarrow> Inl e | Inr _ \<Rightarrow> Inr s)"

section \<open>Candles and the tick handler\<close>

definition currentCandle :: "debut \<Rightarrow> candle option" where
  "currentCandle s = (case candles s of [] \<Rightarrow> None | x # _ \<Rightarrow> Some x)"

definition prevCandle :: "debut \<Rightarrow> candle option" where
  "prevCandle s = (case candles s of x # y # _ \<Rightarrow> Some y | _ \<Rightarrow> None)"

text \<open>
  \<open>updateCandles\<close> replaces itself by a version without the length test the first
  time the window is full; \<open>updateCandlesSwapped\<close> says that this has happened.
  \<open>pop\<close> is \<open>butlast\<close>, \<open>unshift\<close> is \<open>#\<close>.
\<close>

definition updateCandles :: "candle \<Rightarrow> debut \<Rightarrow> debut" where
  "updateCandles cd s =
     (if updateCandlesSwapped s then s\<lparr>candles := cd # butlast (candles s)\<rparr>
      else if length (candles s) = 10
      then s\<lparr>candles := cd # butlast (candles s), updateCandlesSwapped := True\<rparr>
      else s\<lparr>candles := cd # candles s\<rparr>)"

text \<open>\<open>this.candles[0] = tick\<close>: on an empty array the assignment extends it.\<close>

definition setCurrent :: "candle \<Rightarrow> candle list \<Rightarrow> candle list" where
  "setCurrent tick cs = (case cs of [] \<Rightarrow> [tick] | _ # rest \<Rightarrow> tick # rest)"

text \<open>
  The extension points \<open>onTick\<close>, \<open>onCandle\<close>, \<open>onOrderOpened\<close> and
  \<open>onOrderClosed\<close> of the class have empty bodies. The first two carry the suffix
  \<open>Ext\<close> here, since the hooks have the same names. What a subclass puts in
  their place is not part of this model.
\<close>

definition onTickExt :: "candle \<Rightarrow> debut \<Rightarrow> unit result" where
  "onTickExt tick s = (Inr (), s)"

definition onCandleExt :: "candle option \<Rightarrow> debut \<Rightarrow> unit result" where
  "onCandleExt cd s = (Inr (), s)"

definition onOrderOpened :: "order \<Rightarrow> debut \<Rightarrow> unit result" where
  "onOrderOpened ord s = (Inr (), s)"

definition onOrderClosed :: "order \<Rightarrow> order \<Rightarrow> debut \<Rightarrow> unit result" where
  "onOrderClosed ord closing s = (Inr (), s)"

definition handler :: "plugin list \<Rightarrow> candle \<Rightarrow> debut \<Rightarrow> unit result" where
  "handler ps tick s =
     (let change = (case currentCandle s of None \<Rightarrow> False
                    | Some cur \<Rightarrow> candle_time cur \<noteq> candle_time tick)
      in case asyncSkipReduce ps onBeforeTick (TickArgs tick) s of
           (Inl e, s1) \<Rightarrow> (Inl e, s1)
         | (Inr True, s1) \<Rightarrow> (Inr (), s1)
         | (Inr False, s1) \<Rightarrow>
             (let s2 = (if \<not> change then s1\<lparr>candles := setCurrent tick (candles s1)\<rparr> else s1)
              in case asyncReduce ps onTick (TickArgs tick) s2 of
                   (Inl e, s3) \<Rightarrow> (Inl e, s3)
                 | (Inr _, s3) \<Rightarrow>
                     (case onTickExt tick s3 of
                        (Inl e, s4) \<Rightarrow> (Inl e, s4)
                      | (Inr _, s4) \<Rightarrow>
                          if change then
                            (let prevTick = currentCandle s4
                             in case asyncReduce ps onCandle (CandleArgs prevTick) s4 of
                                  (Inl e, s5) \<Rightarrow> (Inl e, s5)
                                | (Inr _, s5) \<Rightarrow>
                                    (case onCandleExt prevTick s5 of
                                       (Inl e, s6) \<Rightarrow> (Inl e, s6)
                                     | (Inr _, s6) \<Rightarrow>
                                         (case asyncReduce ps onAfterCandle (CandleArgs prevTick) s6 of
                                            (Inl e, s7) \<Rightarrow> (Inl e, s7)
                                          | (Inr _, s7) \<Rightarrow> (Inr (), updateCandles tick s7))))
                          else (Inr (), s4))))"

text \<open>
  A stream of ticks, as the subscription of \<open>start\<close> delivers it: the handler runs
  once per tick, each run to its end before the next; the state a run leaves
  behind is the state the next one starts in, also when the run failed.
\<close>

fun feed :: "plugin list \<Rightarrow> candle list \<Rightarrow> debut \<Rightarrow> debut" where
  "feed ps [] s = s"
| "feed ps (tick # ticks) s = feed ps ticks (snd (handler ps tick s))"

section \<open>Array primitives\<close>

text \<open>
  \<open>findIndex\<close> and \<open>indexOf\<close> return the first matching index, \<open>None\<close> for \<open>-1\<close>;
  \<open>splice1 idx\<close> is \<open>splice(idx, 1)\<close>.
\<close>

fun findIndexFrom :: "nat \<Rightarrow> ('a \<Rightarrow> bool) \<Rightarrow> 'a list \<Rightarrow> nat option" where
  "findIndexFrom i P [] = None"
| "findIndexFrom i P (x # xs) = (if P x then Some i else findIndexFrom (Suc i) P xs)"

definition findIndex :: "('a \<Rightarrow> bool) \<Rightarrow> 'a list \<Rightarrow> nat option" where
  "findIndex P xs = findIndexFrom 0 P xs"

definition indexOf :: "'a list \<Rightarrow> 'a \<Rightarrow> nat option" where
  "indexOf xs x = findIndex (\<lambda>y. y = x) xs"

definition splice1 :: "nat \<Rightarrow> 'a list \<Rightarrow> 'a list" where
  "splice1 idx xs = take idx xs @ drop (Suc idx) xs"

section \<open>Opening an order\<close>

text \<open>\<open>item.cid === k\<close> for the object behind a reference of the order book.\<close>

definition cidIs :: "order list \<Rightarrow> real \<Rightarrow> ref \<Rightarrow> bool" where
  "cidIs h k r = (case lookup h r of None \<Rightarrow> False | Some item \<Rightarrow> cid item = k)"

text \<open>
  \<open>replacePendingOrder\<close>: \<open>r\<close> is the reference of the executed order \<open>ord\<close>.
\<close>

definition replacePendingOrder :: "ref \<Rightarrow> order \<Rightarrow> debut \<Rightarrow> debut" where
  "replacePendingOrder r ord s =
     (case findIndex (cidIs (heap s) (cid ord)) (orders s) of
        Some idx \<Rightarrow> s\<lparr>orders := (orders s)[idx := r]\<rparr>
      | None \<Rightarrow> emit (ConsoleUnknownOrder (orders s) ord) s)"

definition removePendingOrder :: "order \<Rightarrow> debut \<Rightarrow> debut" where
  "removePendingOrder ord s =
     (case findIndex (cidIs (heap s) (cid ord)) (orders s) of
        Some idx \<Rightarrow> s\<lparr>orders := splice1 idx (orders s)\<rparr>
      | None \<Rightarrow> s)"

text \<open>The object literal of \<open>createOrder\<close>.\<close>

definition openPendingOrder ::
  "transport \<Rightarrow> runtime \<Rightarrow> order_type \<Rightarrow> candle \<Rightarrow> instrument \<Rightarrow> debut \<Rightarrow> order" where
  "openPendingOrder tr rt operation cur ins s =
     (let lotPrice = times rt (Num (candle_c cur)) (instrument_lot ins)
      in \<lparr>cid = mathRandom rt s * 10 ^ 17,
          broker = getProp (opts s) ''broker'',
          type = operation,
          ticker = instrument_ticker ins,
          figi = instrument_figi ins,
          currency = getProp (opts s) ''currency'',
          interval = getProp (opts s) ''interval'',
          author = name s,
          price = candle_c cur,
          lots = prepareLots tr
                   (times rt (divide rt (getProp (opts s) ''amount'') lotPrice)
                      (getProp (opts s) ''lotsMultiplier''))
                   (instrument_id ins),
          lotSize = instrument_lot ins,
          pipSize = instrument_pipSize ins,
          close = False,
          openPrice = Undefined,
          openId = Undefined,
          sandbox = getProp (opts s) ''sandbox'',
          learning = debut.learning s,
          time = candle_time cur,
          margin = getProp (opts s) ''margin'',
          futures = Bool (getProp (opts s) ''instrumentType'' = Str ''FUTURES''),
          instrumentType = getProp (opts s) ''instrumentType'',
          lotsMultiplier = getProp (opts s) ''lotsMultiplier'',
          equityLevel = getProp (opts s) ''equityLevel'',
          orderId = None,
          executedLots = Undefined,
          processing = False\<rparr>)"

text \<open>
  The \<open>catch\<close> block of \<open>createOrder\<close>. Its first statement builds the message
  from \<open>e.message\<close>: when \<open>e\<close> is \<open>undefined\<close> or \<open>null\<close> this read throws a
  \<open>TypeError\<close> inside the \<open>catch\<close> block, so that nothing is written to the console,
  \<open>removePendingOrder\<close> is not reached and \<open>createOrder\<close> fails with the
  \<open>TypeError\<close>. Otherwise the Core error is written with \<open>console.warn\<close>, the
  pending order is removed and the function returns \<open>undefined\<close>.
\<close>

definition catchOpen :: "runtime \<Rightarrow> js_error \<Rightarrow> order \<Rightarrow> debut \<Rightarrow> ref option result" where
  "catchOpen rt e pendingOrder s =
     (if e = Nullish then (Inl TypeError, s)
      else (Inr None,
            removePendingOrder pendingOrder
              (emit (Console Warn (createCoreError (OrderPlace (toISOString rt s) e))) s)))"

text \<open>
  \<open>createOrder\<close> returns the reference of the executed order, or \<open>None\<close> for
  \<open>undefined\<close>. Reading \<open>this.currentCandle\<close> or \<open>this.instrument\<close> while it is
  undefined throws before the \<open>try\<close>.
\<close>

definition createOrder ::
  "plugin list \<Rightarrow> transport \<Rightarrow> runtime \<Rightarrow> order_type \<Rightarrow> debut \<Rightarrow> ref option result" where
  "createOrder ps tr rt operation s =
     (case currentCandle s of
        None \<Rightarrow> (Inl TypeError, s)
      | Some cur \<Rightarrow>
     (case instrument s of
        None \<Rightarrow> (Inl TypeError, s)
      | Some ins \<Rightarrow>
     (let pendingOrder = openPendingOrder tr rt operation cur ins s
      in case asyncSkipReduce ps onBeforeOpen (OrderArgs pendingOrder) s of
           (Inl e, s1) \<Rightarrow> catchOpen rt e pendingOrder s1
         | (Inr True, s1) \<Rightarrow> (Inr None, s1)
         | (Inr False, s1) \<Rightarrow>
     (let s2 = s1\<lparr>heap := heap s1 @ [pendingOrder], orders := orders s1 @ [length (heap s1)]\<rparr>
      in case placeOrder tr s2 pendingOrder of
           Inl e \<Rightarrow>
             catchOpen rt e pendingOrder (emit (PlaceOrder pendingOrder (Inl e) (snapshot s2)) s2)
         | Inr ord \<Rightarrow>
     (let s3 = emit (PlaceOrder pendingOrder (Inr ord) (snapshot s2)) s2;
          r = length (heap s3);
          s4 = s3\<lparr>heap := heap s3 @ [ord]\<rparr>
      in case asyncReduce ps onOpen (OrderArgs ord) s4 of
           (Inl e, s5) \<Rightarrow> catchOpen rt e pendingOrder s5
         | (Inr _, s5) \<Rightarrow>
             (case onOrderOpened ord s5 of
                (Inl e, s6) \<Rightarrow> catchOpen rt e pendingOrder s6
              | (Inr _, s6) \<Rightarrow> (Inr (Some r), replacePendingOrder r ord s6)))))))"

section \<open>Closing an order\<close>

definition setProcessing :: "ref \<Rightarrow> bool \<Rightarrow> debut \<Rightarrow> debut" where
  "setProcessing r b s =
     (case lookup (heap s) r of
        None \<Rightarrow> s
      | Some x \<Rightarrow> s\<lparr>heap := (heap s)[r := x\<lparr>processing := b\<rparr>]\<rparr>)"

text \<open>The object literal of \<open>closeOrder\<close>; \<open>closing\<close> has passed the guard.\<close>

definition closePendingOrder :: "runtime \<Rightarrow> order \<Rightarrow> candle \<Rightarrow> instrument \<Rightarrow> debut \<Rightarrow> order" where
  "closePendingOrder rt closing cur ins s =
     \<lparr>cid = dateNow rt s,
      broker = getProp (opts s) ''broker'',
      type = inverseType (type closing),
      ticker = instrument_ticker ins,
      figi = instrument_figi ins,
      currency = getProp (opts s) ''currency'',
      interval = getProp (opts s) ''interval'',
      author = name s,
      price = candle_c cur,
      lots = executedLots closing,
      lotSize = instrument_lot ins,
      pipSize = instrument_pipSize ins,
      close = True,
      openPrice = Num (price closing),
      openId = (case orderId closing of None \<Rightarrow> Undefined | Some v \<Rightarrow> v),
      sandbox = sandbox closing,
      learning = order.learning closing,
      time = candle_time cur,
      margin = getProp (opts s) ''margin'',
      futures = futures closing,
      instrumentType = instrumentType closing,
      lotsMultiplier = Undefined,
      equityLevel = Undefined,
      orderId = None,
      executedLots = Undefined,
      processing = False\<rparr>"

text \<open>
  The \<open>catch\<close> block of \<open>closeOrder\<close> followed by its \<open>finally\<close>: the error is
  written to the console, the order is put back at the front when \<open>indexOf\<close> does
  not find it, and \<open>processing\<close> is cleared. The message is built from \<open>${e}\<close>,
  which reads no property of \<open>e\<close>, so this block handles every thrown value alike.
\<close>

definition catchClose :: "runtime \<Rightarrow> js_error \<Rightarrow> ref \<Rightarrow> debut \<Rightarrow> order option result" where
  "catchClose rt e closing s =
     (let s1 = emit (Console Log (DebutError Core (OrderClose (toISOString rt s) e))) s;
          s2 = (case indexOf (orders s1) closing of
                  None \<Rightarrow> s1\<lparr>orders := closing # orders s1\<rparr>
                | Some _ \<Rightarrow> s1)
      in (Inr None, setProcessing closing False s2))"

text \<open>
  \<open>closeOrder\<close> takes the reference of the order and returns the executed closing
  order, or \<open>None\<close> for \<open>undefined\<close>. A reference to no object stands for the
  argument \<open>undefined\<close>, on which \<open>closing.processing\<close> throws.
\<close>

definition closeOrder ::
  "plugin list \<Rightarrow> transport \<Rightarrow> runtime \<Rightarrow> ref \<Rightarrow> debut \<Rightarrow> order option result" where
  "closeOrder ps tr rt closing s =
     (case lookup (heap s) closing of
        None \<Rightarrow> (Inl TypeError, s)
      | Some cl \<Rightarrow>
     if processing cl \<or> orderId cl = None then (Inr None, s)
     else
     (case currentCandle s of
        None \<Rightarrow> (Inl TypeError, s)
      | Some cur \<Rightarrow>
     (case instrument s of
        None \<Rightarrow> (Inl TypeError, s)
      | Some ins \<Rightarrow>
     (let pendingOrder = closePendingOrder rt cl cur ins s;
          s1 = setProcessing closing True s;
          cl1 = cl\<lparr>processing := True\<rparr>
      in case asyncSkipReduce ps onBeforeClose (CloseArgs pendingOrder cl1) s1 of
           (Inl e, s2) \<Rightarrow> catchClose rt e closing s2
         | (Inr True, s2) \<Rightarrow>
             (Inr None, setProcessing closing False (setProcessing closing False s2))
         | (Inr False, s2) \<Rightarrow>
     (let s3 = (case indexOf (orders s2) closing of
                  Some idx \<Rightarrow> s2\<lparr>orders := splice1 idx (orders s2)\<rparr>
                | None \<Rightarrow> s2)
      in case placeOrder tr s3 pendingOrder of
           Inl e \<Rightarrow>
             catchClose rt e closing (emit (PlaceOrder pendingOrder (Inl e) (snapshot s3)) s3)
         | Inr ord \<Rightarrow>
     (let s4 = emit (PlaceOrder pendingOrder (Inr ord) (snapshot s3)) s3
      in case asyncReduce ps onClose (CloseArgs ord cl1) s4 of
           (Inl e, s5) \<Rightarrow> catchClose rt e closing s5
         | (Inr _, s5) \<Rightarrow>
             (case onOrderClosed ord cl1 s5 of
                (Inl e, s6) \<Rightarrow> catchClose rt e closing s6
              | (Inr _, s6) \<Rightarrow> (Inr (Some ord), setProcessing closing False s6))))))))"

section \<open>Closing all orders\<close>

text \<open>
  The loop of \<open>closeAll\<close>: \<open>n\<close> iterations are left, \<open>closedOrders\<close> is the array \<open>closed\<close> built
  so far. Every iteration closes \<open>this.orders[0]\<close> and pushes what \<open>closeOrder\<close>
  returned. On an empty order book \<open>this.orders[0]\<close> is \<open>undefined\<close>.
\<close>

fun closeAllLoop ::
  "plugin list \<Rightarrow> transport \<Rightarrow> runtime \<Rightarrow> nat \<Rightarrow> order option list \<Rightarrow> debut
     \<Rightarrow> order option list result" where
  "closeAllLoop ps tr rt 0 closedOrders s = (Inr closedOrders, s)"
| "closeAllLoop ps tr rt (Suc n) closedOrders s =
     (case orders s of
        [] \<Rightarrow> (Inl TypeError, s)
      | first # _ \<Rightarrow>
          (case closeOrder ps tr rt first s of
             (Inl e, s1) \<Rightarrow> (Inl e, s1)
           | (Inr executedOrder, s1) \<Rightarrow>
               closeAllLoop ps tr rt n (closedOrders @ [executedOrder]) s1))"

text \<open>\<open>closeAll\<close> returns \<open>None\<close> for \<open>undefined\<close>, else the array \<open>closed\<close>.\<close>

definition closeAll ::
  "plugin list \<Rightarrow> transport \<Rightarrow> runtime \<Rightarrow> debut \<Rightarrow> order option list option result" where
  "closeAll ps tr rt s =
     (if orders s = [] then (Inr None, s)
      else case closeAllLoop ps tr rt (length (orders s)) [] s of
             (Inl e, s1) \<Rightarrow> (Inl e, s1)
           | (Inr closedOrders, s1) \<Rightarrow> (Inr (Some closedOrders), s1))"


section \<open>Reading traces and order books\<close>

text \<open>
  The events a run adds to the trace: the trace of the state after the run without
  the prefix that was there before.
\<close>

definition newEvents :: "debut \<Rightarrow> debut \<Rightarrow> event list" where
  "newEvents s s' = drop (length (trace s)) (trace s')"

text \<open>
  A state is well formed when every reference of the order book denotes an object.
  The constructor establishes this and every operation keeps it.
\<close>

definition wellFormed :: "debut \<Rightarrow> bool" where
  "wellFormed s = (\<forall>r\<in>set (orders s). r < length (heap s))"

text \<open>
  The order book at a suspension point; whether an event is a submission to the
  transport; the order a successful submission returned.
\<close>

fun eventBook :: "event \<Rightarrow> book option" where
  "eventBook (Hook i hk a r b) = Some b"
| "eventBook (PlaceOrder p r b) = Some b"
| "eventBook (Console l e) = None"
| "eventBook (ConsoleUnknownOrder os ord) = None"

fun isPlaceOrder :: "event \<Rightarrow> bool" where
  "isPlaceOrder (PlaceOrder p r b) = True"
| "isPlaceOrder (Hook i hk a r b) = False"
| "isPlaceOrder (Console l e) = False"
| "isPlaceOrder (ConsoleUnknownOrder os ord) = False"

fun placedOrder :: "event \<Rightarrow> order option" where
  "placedOrder (PlaceOrder p (Inr ord) b) = Some ord"
| "placedOrder (PlaceOrder p (Inl e) b) = None"
| "placedOrder (Hook i hk a r b) = None"
| "placedOrder (Console l e) = None"
| "placedOrder (ConsoleUnknownOrder os ord) = None"

fun placed :: "event list \<Rightarrow> order list" where
  "placed [] = []"
| "placed (ev # evs) = (case placedOrder ev of None \<Rightarrow> placed evs | Some x \<Rightarrow> x # placed evs)"

text \<open>The entries of the array returned by \<open>closeAll\<close> that are not \<open>undefined\<close>.\<close>

fun executedOrders :: "order option list \<Rightarrow> order list" where
  "executedOrders [] = []"
| "executedOrders (None # xs) = executedOrders xs"
| "executedOrders (Some x # xs) = x # executedOrders xs"

text \<open>
  What the events of one close attempt say about its outcome: \<open>undefined\<close> when an
  error was written to the console, else the first order that the transport
  returned, and \<open>undefined\<close> when it returned none.
\<close>

fun isErrorLine :: "event \<Rightarrow> bool" where
  "isErrorLine (Console l e) = True"
| "isErrorLine (Hook i hk a r b) = False"
| "isErrorLine (PlaceOrder p r b) = False"
| "isErrorLine (ConsoleUnknownOrder os ord) = False"

definition closeOutcome :: "event list \<Rightarrow> order option" where
  "closeOutcome evs =
     (if list_ex isErrorLine evs then None
      else case placed evs of [] \<Rightarrow> None | ord # _ \<Rightarrow> Some ord)"

text \<open>
  The invocations of one hook in a trace, as pairs of plugin number and arguments;
  the plugins of a list that implement a hook, numbered from \<open>i\<close>.
\<close>

fun hookCalls :: "hook \<Rightarrow> event list \<Rightarrow> (nat \<times> hook_args) list" where
  "hookCalls hk [] = []"
| "hookCalls hk (Hook i h a r b # evs) =
     (if h = hk then (i, a) # hookCalls hk evs else hookCalls hk evs)"
| "hookCalls hk (PlaceOrder p r b # evs) = hookCalls hk evs"
| "hookCalls hk (Console l e # evs) = hookCalls hk evs"
| "hookCalls hk (ConsoleUnknownOrder os ord # evs) = hookCalls hk evs"

fun attendees :: "nat \<Rightarrow> plugin list \<Rightarrow> hook \<Rightarrow> nat list" where
  "attendees i [] hk = []"
| "attendees i (p # ps) hk = (if p hk = None then [] else [i]) @ attendees (Suc i) ps hk"

text \<open>
  An event stops a tick when a hook threw or when \<open>onBeforeTick\<close> returned a
  truthy value.
\<close>

fun stops :: "event \<Rightarrow> bool" where
  "stops (Hook i hk a (Inl e) b) = True"
| "stops (Hook i hk a (Inr v) b) = (v \<and> hk = onBeforeTick)"
| "stops (PlaceOrder p r b) = False"
| "stops (Console l e) = False"
| "stops (ConsoleUnknownOrder os ord) = False"

text \<open>
  The shape of the events of one pipeline call: hooks that returned a falsy value
  (respectively any value) from plugins numbered below \<open>n\<close>, and a last hook
  whose outcome \<open>r\<close> ended the call.
\<close>

definition passedBelow :: "nat \<Rightarrow> hook \<Rightarrow> hook_args \<Rightarrow> book \<Rightarrow> event list \<Rightarrow> bool" where
  "passedBelow n hk a b evs = (\<forall>ev\<in>set evs. \<exists>i<n. ev = Hook i hk a (Inr False) b)"

definition stoppedAt :: "nat \<Rightarrow> nat \<Rightarrow> hook \<Rightarrow> hook_args \<Rightarrow> book \<Rightarrow> js_error + bool \<Rightarrow> event list \<Rightarrow> bool" where
  "stoppedAt lo n hk a b r evs =
     (\<exists>pre j. evs = pre @ [Hook j hk a r b] \<and> lo \<le> j \<and> j < n \<and> passedBelow j hk a b pre)"

definition skipShape :: "nat \<Rightarrow> nat \<Rightarrow> hook \<Rightarrow> hook_args \<Rightarrow> book \<Rightarrow> js_error + bool \<Rightarrow> event list \<Rightarrow> bool" where
  "skipShape lo n hk a b r evs =
     (if r = Inr False then passedBelow n hk a b evs else stoppedAt lo n hk a b r evs)"

definition returnedBelow :: "nat \<Rightarrow> hook \<Rightarrow> hook_args \<Rightarrow> book \<Rightarrow> event list \<Rightarrow> bool" where
  "returnedBelow n hk a b evs = (\<forall>ev\<in>set evs. \<exists>i<n. \<exists>v. ev = Hook i hk a (Inr v) b)"

definition reduceShape :: "nat \<Rightarrow> nat \<Rightarrow> hook \<Rightarrow> hook_args \<Rightarrow> book \<Rightarrow> js_error + unit \<Rightarrow> event list \<Rightarrow> bool" where
  "reduceShape lo n hk a b r evs =
     (case r of
        Inr _ \<Rightarrow> returnedBelow n hk a b evs
      | Inl e \<Rightarrow> (\<exists>pre j. evs = pre @ [Hook j hk a (Inl e) b] \<and> lo \<le> j \<and> j < n
                    \<and> returnedBelow j hk a b pre))"

text \<open>
  What \<open>removePendingOrder\<close> and the \<open>catch\<close> block of \<open>closeOrder\<close> do to
  the order book.
\<close>

definition dropCid :: "order list \<Rightarrow> real \<Rightarrow> ref list \<Rightarrow> ref list" where
  "dropCid h k os = (case findIndex (cidIs h k) os of Some idx \<Rightarrow> splice1 idx os | None \<Rightarrow> os)"

definition restoreOrder :: "ref \<Rightarrow> ref list \<Rightarrow> ref list" where
  "restoreOrder r os = (if r \<in> set os then os else r # os)"

text \<open>
  The condition \<open>change\<close> of the tick handler, and the invariant of the candle
  window: at most ten candles, exactly ten once \<open>updateCandles\<close> has replaced
  itself.
\<close>

definition change :: "candle \<Rightarrow> debut \<Rightarrow> bool" where
  "change tick s = (case currentCandle s of None \<Rightarrow> False
                    | Some cur \<Rightarrow> candle_time cur \<noteq> candle_time tick)"

definition windowOk :: "debut \<Rightarrow> bool" where
  "windowOk s = (length (candles s) \<le> 10 \<and> (updateCandlesSwapped s \<longrightarrow> length (candles s) = 10))"

section \<open>An example configuration\<close>

text \<open>
  A concrete strategy on which the theorems below are evaluated: options, an
  instrument, ticks, a runtime, a transport that accepts every order, one that
  rejects every order with an error and one that rejects with \<open>undefined\<close>,
  plugins that veto, throw or observe, and states with an empty order book, with a
  pending order and with an executed order; the executed order of
  \<open>collidingState\<close> has the correlation id that the runtime gives to the next
  pending order.
\<close>

definition exampleOptions :: options where
  "exampleOptions =
     [''broker'' \<mapsto> Str ''binance'', ''ticker'' \<mapsto> Str ''BTCUSDT'',
      ''currency'' \<mapsto> Str ''USDT'', ''interval'' \<mapsto> Str ''1min'', ''amount'' \<mapsto> Num 1000]"

definition futuresOptions :: options where
  "futuresOptions = [''broker'' \<mapsto> Str ''tinkoff'', ''instrumentType'' \<mapsto> Str ''FUTURES'']"

definition exampleInstrument :: instrument where
  "exampleInstrument =
     \<lparr>instrument_ticker = Str ''BTCUSDT'', instrument_figi = Str ''BTCUSDT'',
      instrument_lot = Num 1, instrument_pipSize = Num (1 / 100),
      instrument_id = Str ''BTCUSDT''\<rparr>"

definition exampleTick :: "real \<Rightarrow> real \<Rightarrow> candle" where
  "exampleTick t c =
     \<lparr>candle_o = c, candle_h = c, candle_l = c, candle_c = c, candle_v = 1, candle_time = t\<rparr>"

definition exampleRuntime :: runtime where
  "exampleRuntime =
     \<lparr>mathRandom = (\<lambda>s. 1 / 2), dateNow = (\<lambda>s. 1000),
      toISOString = (\<lambda>s. ''2021-01-01T00:00:00.000Z''),
      times = (\<lambda>a b. case (a, b) of (Num x, Num y) \<Rightarrow> Num (x * y) | _ \<Rightarrow> Undefined),
      divide = (\<lambda>a b. case (a, b) of (Num x, Num y) \<Rightarrow> Num (x / y) | _ \<Rightarrow> Undefined)\<rparr>"

definition acceptingTransport :: transport where
  "acceptingTransport =
     \<lparr>placeOrder = (\<lambda>s p. Inr (p\<lparr>orderId := Some (Str ''7''), executedLots := lots p\<rparr>)),
      prepareLots = (\<lambda>n i. n)\<rparr>"

definition rejectingTransport :: transport where
  "rejectingTransport =
     \<lparr>placeOrder = (\<lambda>s p. Inl (Thrown ''rejected'')),
      prepareLots = (\<lambda>n i. n)\<rparr>"

definition nullRejectingTransport :: transport where
  "nullRejectingTransport =
     \<lparr>placeOrder = (\<lambda>s p. Inl Nullish),
      prepareLots = (\<lambda>n i. n)\<rparr>"

definition vetoPlugin :: plugin where
  "vetoPlugin = [onBeforeOpen \<mapsto> (\<lambda>s a. Inr True)]"

definition throwingPlugin :: plugin where
  "throwingPlugin = [onBeforeOpen \<mapsto> (\<lambda>s a. Inl (Thrown ''boom'')),
                     onBeforeClose \<mapsto> (\<lambda>s a. Inl (Thrown ''boom''))]"


definition failingPlugin :: plugin where
  "failingPlugin = [onAfterCandle \<mapsto> (\<lambda>s a. Inl (Thrown ''boom''))]"

definition observerPlugin :: plugin where
  "observerPlugin = [onOpen \<mapsto> (\<lambda>s a. Inr False), onCandle \<mapsto> (\<lambda>s a. Inr False)]"

definition startState :: debut where
  "startState =
     \<lparr>name = ''Strategy'', opts = defaultOptions ++ exampleOptions, instrument = None,
      learning = Undefined, candles = [], updateCandlesSwapped = False,
      heap = [], orders = [], trace = []\<rparr>"

definition exampleState :: debut where
  "exampleState = startState\<lparr>instrument := Some exampleInstrument, candles := [exampleTick 0 10]\<rparr>"

definition examplePending :: order where
  "examplePending =
     openPendingOrder acceptingTransport exampleRuntime BUY (exampleTick 0 10) exampleInstrument
       exampleState"

definition exampleExecuted :: order where
  "exampleExecuted = examplePending\<lparr>orderId := Some (Str ''7''), executedLots := lots examplePending\<rparr>"

definition heldOrder :: order where
  "heldOrder = exampleExecuted\<lparr>cid := 42\<rparr>"

definition pendingState :: debut where
  "pendingState = exampleState\<lparr>heap := [examplePending], orders := [0]\<rparr>"

definition holdingState :: debut where
  "holdingState = exampleState\<lparr>heap := [heldOrder], orders := [0]\<rparr>"

definition collidingState :: debut where
  "collidingState = exampleState\<lparr>heap := [exampleExecuted], orders := [0]\<rparr>"

section \<open>Runs of the pipeline\<close>

text \<open>Every pipeline call changes the trace only, and its events have the shape of its outcome.\<close>

lemma emit_simps [simp]:
  "trace (emit e s) = trace s @ [e]" "heap (emit e s) = heap s" "orders (emit e s) = orders s"
  "candles (emit e s) = candles s" "updateCandlesSwapped (emit e s) = updateCandlesSwapped s"
  "opts (emit e s) = opts s" "instrument (emit e s) = instrument s" "name (emit e s) = name s"
  "debut.learning (emit e s) = debut.learning s" "snapshot (emit e s) = snapshot s"
  by (simp_all add: emit_def snapshot_def)

lemma passedBelow_Nil [simp]: "passedBelow n hk a b []"
  by (simp add: passedBelow_def)

lemma passedBelow_Cons:
  "passedBelow n hk a b (ev # evs) \<longleftrightarrow> (\<exists>i<n. ev = Hook i hk a (Inr False) b) \<and> passedBelow n hk a b evs"
  by (auto simp add: passedBelow_def)

lemma stoppedAt_single: "lo \<le> j \<Longrightarrow> j < n \<Longrightarrow> stoppedAt lo n hk a b r [Hook j hk a r b]"
  unfolding stoppedAt_def by (intro exI[of _ "[]"] exI[of _ j]) simp

lemma stoppedAt_Cons:
  assumes "stoppedAt (Suc i) n hk a b r evs"
  shows "stoppedAt i n hk a b r (Hook i hk a (Inr False) b # evs)"
proof -
  from assms obtain pre j where
    e: "evs = pre @ [Hook j hk a r b]" and j: "Suc i \<le> j" "j < n" and p: "passedBelow j hk a b pre"
    unfolding stoppedAt_def by blast
  have "passedBelow j hk a b (Hook i hk a (Inr False) b # pre)"
    using p j by (auto simp: passedBelow_Cons)
  with e j show ?thesis
    unfolding stoppedAt_def
    by (intro exI[of _ "Hook i hk a (Inr False) b # pre"] exI[of _ j]) simp
qed

lemma skipShape_Cons:
  assumes "skipShape (Suc i) n hk a b r evs" "i < n"
  shows "skipShape i n hk a b r (Hook i hk a (Inr False) b # evs)"
  using assms by (auto simp: skipShape_def passedBelow_Cons intro: stoppedAt_Cons)

lemma skipShape_weaken: "skipShape (Suc i) n hk a b r evs \<Longrightarrow> skipShape i n hk a b r evs"
  by (auto simp: skipShape_def stoppedAt_def)

lemma asyncSkipReduceFrom_run:
  "asyncSkipReduceFrom i ps hk a s = (r, s') \<Longrightarrow>
   \<exists>evs. s' = s\<lparr>trace := trace s @ evs\<rparr> \<and> skipShape i (i + length ps) hk a (snapshot s) r evs"
proof (induction ps arbitrary: i s)
  case Nil
  then show ?case by (auto simp: skipShape_def intro: exI[of _ "[]"])
next
  case (Cons p ps)
  show ?case
  proof (cases "p hk")
    case None
    with Cons.prems have "asyncSkipReduceFrom (Suc i) ps hk a s = (r, s')" by simp
    from Cons.IH[OF this] show ?thesis by (auto intro: skipShape_weaken)
  next
    case (Some f)
    show ?thesis
    proof (cases "f s a = Inr False")
      case False
      with Some Cons.prems
      have "r = f s a" "s' = emit (Hook i hk a (f s a) (snapshot s)) s"
        by (auto split: sum.splits if_splits)
      with False show ?thesis
        by (auto simp: emit_def skipShape_def intro!: exI[of _ "[Hook i hk a (f s a) (snapshot s)]"] stoppedAt_single)
    next
      case True
      let ?ev = "Hook i hk a (Inr False) (snapshot s)"
      from True Some Cons.prems
      have run: "asyncSkipReduceFrom (Suc i) ps hk a (emit ?ev s) = (r, s')" by simp
      from Cons.IH[OF run] obtain evs where
        s': "s' = (emit ?ev s)\<lparr>trace := trace (emit ?ev s) @ evs\<rparr>" and
        sh: "skipShape (Suc i) (Suc i + length ps) hk a (snapshot s) r evs"
        by auto
      have "s' = s\<lparr>trace := trace s @ (?ev # evs)\<rparr>"
        using s' by (simp add: emit_def)
      moreover have "skipShape i (i + length (p # ps)) hk a (snapshot s) r (?ev # evs)"
        using sh by (intro skipShape_Cons) auto
      ultimately show ?thesis by blast
    qed
  qed
qed

lemma returnedBelow_Nil [simp]: "returnedBelow n hk a b []"
  by (simp add: returnedBelow_def)

lemma returnedBelow_Cons:
  "returnedBelow n hk a b (ev # evs) \<longleftrightarrow>
     (\<exists>i<n. \<exists>v. ev = Hook i hk a (Inr v) b) \<and> returnedBelow n hk a b evs"
  by (auto simp add: returnedBelow_def)

lemma reduceShape_Cons:
  assumes "reduceShape (Suc i) n hk a b r evs" "i < n"
  shows "reduceShape i n hk a b r (Hook i hk a (Inr v) b # evs)"
proof (cases r)
  case (Inr u)
  with assms show ?thesis by (auto simp: reduceShape_def returnedBelow_Cons)
next
  case (Inl e)
  with assms obtain pre j where
    e: "evs = pre @ [Hook j hk a (Inl e) b]" and j: "Suc i \<le> j" "j < n"
    and p: "returnedBelow j hk a b pre"
    by (auto simp: reduceShape_def)
  have "returnedBelow j hk a b (Hook i hk a (Inr v) b # pre)"
    using p j by (auto simp: returnedBelow_Cons)
  with e j Inl show ?thesis
    unfolding reduceShape_def
    by (auto intro!: exI[of _ "Hook i hk a (Inr v) b # pre"] exI[of _ j])
qed

lemma reduceShape_weaken: "reduceShape (Suc i) n hk a b r evs \<Longrightarrow> reduceShape i n hk a b r evs"
  by (auto simp: reduceShape_def split: sum.splits)

lemma asyncReduceFrom_run:
  "asyncReduceFrom i ps hk a s = (r, s') \<Longrightarrow>
   \<exists>evs. s' = s\<lparr>trace := trace s @ evs\<rparr> \<and> reduceShape i (i + length ps) hk a (snapshot s) r evs"
proof (induction ps arbitrary: i s)
  case Nil
  then show ?case by (auto simp: reduceShape_def intro: exI[of _ "[]"])
next
  case (Cons p ps)
  show ?case
  proof (cases "p hk")
    case None
    with Cons.prems have "asyncReduceFrom (Suc i) ps hk a s = (r, s')" by simp
    from Cons.IH[OF this] show ?thesis by (auto intro: reduceShape_weaken)
  next
    case (Some f)
    show ?thesis
    proof (cases "f s a")
      case (Inl e)
      with Some Cons.prems
      have \<open>r = Inl e\<close> \<open>s' = emit (Hook i hk a (Inl e) (snapshot s)) s\<close>
        by auto
      have "reduceShape i (i + length (p # ps)) hk a (snapshot s) (Inl e)
              [Hook i hk a (Inl e) (snapshot s)]"
        by (auto simp: reduceShape_def intro: exI[of _ "[]"])
      with \<open>r = Inl e\<close> \<open>s' = emit (Hook i hk a (Inl e) (snapshot s)) s\<close>
      show ?thesis
        by (intro exI[of _ "[Hook i hk a (Inl e) (snapshot s)]"]) (simp add: emit_def)
    next
      case (Inr v)
      let ?ev = "Hook i hk a (Inr v) (snapshot s)"
      from Inr Some Cons.prems
      have run: "asyncReduceFrom (Suc i) ps hk a (emit ?ev s) = (r, s')" by simp
      from Cons.IH[OF run] obtain evs where
        s': "s' = (emit ?ev s)\<lparr>trace := trace (emit ?ev s) @ evs\<rparr>" and
        sh: "reduceShape (Suc i) (Suc i + length ps) hk a (snapshot s) r evs"
        by auto
      have "s' = s\<lparr>trace := trace s @ (?ev # evs)\<rparr>"
        using s' by (simp add: emit_def)
      moreover have "reduceShape i (i + length (p # ps)) hk a (snapshot s) r (?ev # evs)"
        using sh by (intro reduceShape_Cons) auto
      ultimately show ?thesis by blast
    qed
  qed
qed

lemma asyncSkipReduce_run:
  "asyncSkipReduce ps hk a s = (r, s') \<Longrightarrow>
   \<exists>evs. s' = s\<lparr>trace := trace s @ evs\<rparr> \<and> skipShape 0 (length ps) hk a (snapshot s) r evs"
  using asyncSkipReduceFrom_run[of 0 ps hk a s r s'] by (simp add: asyncSkipReduce_def)

lemma asyncReduce_run:
  "asyncReduce ps hk a s = (r, s') \<Longrightarrow>
   \<exists>evs. s' = s\<lparr>trace := trace s @ evs\<rparr> \<and> reduceShape 0 (length ps) hk a (snapshot s) r evs"
  using asyncReduceFrom_run[of 0 ps hk a s r s'] by (simp add: asyncReduce_def)

section \<open>Facts about the array primitives\<close>

lemma findIndexFrom_None: "findIndexFrom i P xs = None \<longleftrightarrow> (\<forall>x\<in>set xs. \<not> P x)"
  by (induction xs arbitrary: i) auto

lemma findIndexFrom_shift: "findIndexFrom i P xs = map_option (\<lambda>k. k + i) (findIndexFrom 0 P xs)"
proof (induction xs arbitrary: i)
  case Nil
  then show ?case by simp
next
  case (Cons x xs)
  show ?case
    using Cons.IH[of "Suc i"] Cons.IH[of "Suc 0"]
    by (auto simp: option.map_comp comp_def)
qed

lemma findIndex_Nil [simp]: "findIndex P [] = None"
  by (simp add: findIndex_def)

lemma findIndex_Cons:
  "findIndex P (x # xs) = (if P x then Some 0 else map_option Suc (findIndex P xs))"
  using findIndexFrom_shift[of "Suc 0" P xs] by (simp add: findIndex_def)

lemma findIndex_None: "findIndex P xs = None \<longleftrightarrow> (\<forall>x\<in>set xs. \<not> P x)"
  by (simp add: findIndex_def findIndexFrom_None)


lemma splice1_last [simp]: "splice1 (length xs) (xs @ [y]) = xs"
  by (simp add: splice1_def)

lemma splice1_0 [simp]: "splice1 0 (x # xs) = xs"
  by (simp add: splice1_def)

lemma splice1_Suc [simp]: "splice1 (Suc i) (x # xs) = x # splice1 i xs"
  by (simp add: splice1_def)

lemma indexOf_None: "indexOf xs x = None \<longleftrightarrow> x \<notin> set xs"
  by (auto simp: indexOf_def findIndex_None)

lemma indexOf_remove1:
  "(case indexOf xs x of Some idx \<Rightarrow> splice1 idx xs | None \<Rightarrow> xs) = remove1 x xs"
  by (induction xs) (auto simp: indexOf_def findIndex_Cons split: option.splits)

section \<open>Runs of createOrder\<close>

text \<open>All ways through \<open>createOrder\<close>: for each the result and the state it leaves.\<close>

lemma removePendingOrder_eq:
  "removePendingOrder ord s = s\<lparr>orders := dropCid (heap s) (cid ord) (orders s)\<rparr>"
  by (simp add: removePendingOrder_def dropCid_def split: option.splits)

lemma catchOpen_eq:
  "e \<noteq> Nullish \<Longrightarrow> catchOpen rt e po s =
     (Inr None, s\<lparr>orders := dropCid (heap s) (cid po) (orders s),
                  trace := trace s @ [Console Warn (createCoreError (OrderPlace (toISOString rt s) e))]\<rparr>)"
  by (simp add: catchOpen_def removePendingOrder_eq emit_def)

lemma catchOpen_Nullish: "catchOpen rt Nullish po s = (Inl TypeError, s)"
  by (simp add: catchOpen_def)

lemma createOrder_cases [consumes 1, case_names NoCandle NoInstrument Vetoed BeforeOpenThrew
    BeforeOpenNullish Rejected RejectedNullish OnOpenThrew OnOpenNullish Opened]:
  assumes run: "createOrder ps tr rt operation s = (res, s')"
  obtains
    (NoCandle) "currentCandle s = None" "res = Inl TypeError" "s' = s"
  | (NoInstrument) "instrument s = None" "res = Inl TypeError" "s' = s"
  | (Vetoed) cur ins po pre j where
      "currentCandle s = Some cur" "instrument s = Some ins"
      "po = openPendingOrder tr rt operation cur ins s"
      "j < length ps" "passedBelow j onBeforeOpen (OrderArgs po) (snapshot s) pre"
      "res = Inr None"
      "s' = s\<lparr>trace := trace s @ pre @ [Hook j onBeforeOpen (OrderArgs po) (Inr True) (snapshot s)]\<rparr>"
  | (BeforeOpenThrew) cur ins po pre j e iso where
      "currentCandle s = Some cur" "instrument s = Some ins"
      "po = openPendingOrder tr rt operation cur ins s"
      "j < length ps" "passedBelow j onBeforeOpen (OrderArgs po) (snapshot s) pre"
      "res = Inr None"
      "s' = s\<lparr>orders := dropCid (heap s) (cid po) (orders s),
               trace := trace s @ pre @ [Hook j onBeforeOpen (OrderArgs po) (Inl e) (snapshot s),
                           Console Warn (createCoreError (OrderPlace iso e))]\<rparr>"
      "e \<noteq> Nullish"
  | (BeforeOpenNullish) cur ins po pre j where
      "currentCandle s = Some cur" "instrument s = Some ins"
      "po = openPendingOrder tr rt operation cur ins s"
      "j < length ps" "passedBelow j onBeforeOpen (OrderArgs po) (snapshot s) pre"
      "res = Inl TypeError"
      "s' = s\<lparr>trace := trace s @ pre @
                  [Hook j onBeforeOpen (OrderArgs po) (Inl Nullish) (snapshot s)]\<rparr>"
  | (Rejected) cur ins po pre e iso where
      "currentCandle s = Some cur" "instrument s = Some ins"
      "po = openPendingOrder tr rt operation cur ins s"
      "passedBelow (length ps) onBeforeOpen (OrderArgs po) (snapshot s) pre"
      "res = Inr None"
      "s' = s\<lparr>heap := heap s @ [po],
               orders := dropCid (heap s @ [po]) (cid po) (orders s @ [length (heap s)]),
               trace := trace s @ pre @
                  [PlaceOrder po (Inl e) (heap s @ [po], orders s @ [length (heap s)]),
                   Console Warn (createCoreError (OrderPlace iso e))]\<rparr>"
      "e \<noteq> Nullish"
  | (RejectedNullish) cur ins po pre where
      "currentCandle s = Some cur" "instrument s = Some ins"
      "po = openPendingOrder tr rt operation cur ins s"
      "passedBelow (length ps) onBeforeOpen (OrderArgs po) (snapshot s) pre"
      "res = Inl TypeError"
      "s' = s\<lparr>heap := heap s @ [po],
               orders := orders s @ [length (heap s)],
               trace := trace s @ pre @
                  [PlaceOrder po (Inl Nullish) (heap s @ [po], orders s @ [length (heap s)])]\<rparr>"
  | (OnOpenThrew) cur ins po pre ord mid j e iso where
      "currentCandle s = Some cur" "instrument s = Some ins"
      "po = openPendingOrder tr rt operation cur ins s"
      "passedBelow (length ps) onBeforeOpen (OrderArgs po) (snapshot s) pre"
      "j < length ps"
      "returnedBelow j onOpen (OrderArgs ord) (heap s @ [po, ord], orders s @ [length (heap s)]) mid"
      "res = Inr None"
      "s' = s\<lparr>heap := heap s @ [po, ord],
               orders := dropCid (heap s @ [po, ord]) (cid po) (orders s @ [length (heap s)]),
               trace := trace s @ pre @
                  [PlaceOrder po (Inr ord) (heap s @ [po], orders s @ [length (heap s)])] @ mid @
                  [Hook j onOpen (OrderArgs ord) (Inl e) (heap s @ [po, ord], orders s @ [length (heap s)]),
                   Console Warn (createCoreError (OrderPlace iso e))]\<rparr>"
      "e \<noteq> Nullish"
  | (OnOpenNullish) cur ins po pre ord mid j where
      "currentCandle s = Some cur" "instrument s = Some ins"
      "po = openPendingOrder tr rt operation cur ins s"
      "passedBelow (length ps) onBeforeOpen (OrderArgs po) (snapshot s) pre"
      "j < length ps"
      "returnedBelow j onOpen (OrderArgs ord) (heap s @ [po, ord], orders s @ [length (heap s)]) mid"
      "res = Inl TypeError"
      "s' = s\<lparr>heap := heap s @ [po, ord],
               orders := orders s @ [length (heap s)],
               trace := trace s @ pre @
                  [PlaceOrder po (Inr ord) (heap s @ [po], orders s @ [length (heap s)])] @ mid @
                  [Hook j onOpen (OrderArgs ord) (Inl Nullish) (heap s @ [po, ord], orders s @ [length (heap s)])]\<rparr>"
  | (Opened) cur ins po pre ord mid where
      "currentCandle s = Some cur" "instrument s = Some ins"
      "po = openPendingOrder tr rt operation cur ins s"
      "passedBelow (length ps) onBeforeOpen (OrderArgs po) (snapshot s) pre"
      "returnedBelow (length ps) onOpen (OrderArgs ord) (heap s @ [po, ord], orders s @ [length (heap s)]) mid"
      "res = Inr (Some (Suc (length (heap s))))"
      "s' = replacePendingOrder (Suc (length (heap s))) ord
              (s\<lparr>heap := heap s @ [po, ord],
                 orders := orders s @ [length (heap s)],
                 trace := trace s @ pre @
                  [PlaceOrder po (Inr ord) (heap s @ [po], orders s @ [length (heap s)])] @ mid\<rparr>)"
proof (cases "currentCandle s")
  case None
  with run have "res = Inl TypeError" "s' = s" by (auto simp: createOrder_def)
  with None show ?thesis by (rule NoCandle)
next
  case cur: (Some cur)
  show ?thesis
  proof (cases "instrument s")
    case None
    with run cur have "res = Inl TypeError" "s' = s" by (auto simp: createOrder_def)
    with None show ?thesis by (rule NoInstrument)
  next
    case ins: (Some ins)
    let ?po = "openPendingOrder tr rt operation cur ins s"
    let ?a = "OrderArgs ?po"
    obtain r1 s1 where sk: "asyncSkipReduce ps onBeforeOpen ?a s = (r1, s1)"
      by (cases "asyncSkipReduce ps onBeforeOpen ?a s") blast
    from asyncSkipReduce_run[OF sk] obtain pre where
      s1: "s1 = s\<lparr>trace := trace s @ pre\<rparr>" and
      sh1: "skipShape 0 (length ps) onBeforeOpen ?a (snapshot s) r1 pre"
      by blast
    show ?thesis
    proof (cases r1)
      case (Inl e)
      with sh1 obtain pre' j where pre: "pre = pre' @ [Hook j onBeforeOpen ?a (Inl e) (snapshot s)]"
        and j: "j < length ps" and pb: "passedBelow j onBeforeOpen ?a (snapshot s) pre'"
        by (auto simp: skipShape_def stoppedAt_def)
      from run cur ins sk Inl have c: "catchOpen rt e ?po s1 = (res, s')"
        by (simp add: createOrder_def Let_def)
      show ?thesis
      proof (cases "e = Nullish")
        case True
        with c have "res = Inl TypeError"
          "s' = s\<lparr>trace := trace s @ pre' @ [Hook j onBeforeOpen ?a (Inl Nullish) (snapshot s)]\<rparr>"
          by (auto simp: catchOpen_Nullish s1 pre)
        with cur ins refl[of ?po] j pb show ?thesis by (rule BeforeOpenNullish)
      next
        case False
        with c have "res = Inr None"
          "s' = s\<lparr>orders := dropCid (heap s) (cid ?po) (orders s),
               trace := trace s @ pre' @ [Hook j onBeforeOpen ?a (Inl e) (snapshot s),
                           Console Warn (createCoreError (OrderPlace (toISOString rt s1) e))]\<rparr>"
          by (auto simp: catchOpen_eq s1 pre)
        with cur ins refl[of ?po] j pb show ?thesis using False by (rule BeforeOpenThrew)
      qed
    next
      case (Inr skip)
      show ?thesis
      proof (cases skip)
        case True
        with Inr sh1 obtain pre' j where pre: "pre = pre' @ [Hook j onBeforeOpen ?a (Inr True) (snapshot s)]"
          and j: "j < length ps" and pb: "passedBelow j onBeforeOpen ?a (snapshot s) pre'"
          by (auto simp: skipShape_def stoppedAt_def)
        from run cur ins sk Inr True have "res = Inr None" "s' = s1"
          by (auto simp add: createOrder_def Let_def)
        then have "res = Inr None"
          "s' = s\<lparr>trace := trace s @ pre' @ [Hook j onBeforeOpen ?a (Inr True) (snapshot s)]\<rparr>"
          by (auto simp: s1 pre)
        with cur ins refl[of ?po] j pb show ?thesis by (rule Vetoed)
      next
        case False
        with Inr sh1 have pb: "passedBelow (length ps) onBeforeOpen ?a (snapshot s) pre"
          by (auto simp: skipShape_def)
        let ?b2 = "(heap s @ [?po], orders s @ [length (heap s)])"
        let ?s2 = "s1\<lparr>heap := heap s1 @ [?po], orders := orders s1 @ [length (heap s1)]\<rparr>"
        have snap2: "snapshot ?s2 = ?b2" by (simp add: s1 snapshot_def)
        show ?thesis
        proof (cases "placeOrder tr ?s2 ?po")
          case (Inl e)
          with run cur ins sk Inr False
          have c: "catchOpen rt e ?po (emit (PlaceOrder ?po (Inl e) (snapshot ?s2)) ?s2) = (res, s')"
            by (simp add: createOrder_def Let_def)
          show ?thesis
          proof (cases "e = Nullish")
            case True
            with c have "res = Inl TypeError"
              "s' = s\<lparr>heap := heap s @ [?po],
               orders := orders s @ [length (heap s)],
               trace := trace s @ pre @ [PlaceOrder ?po (Inl Nullish) ?b2]\<rparr>"
              by (auto simp: catchOpen_Nullish snap2) (simp add: s1 emit_def)
            with cur ins refl[of ?po] pb show ?thesis by (rule RejectedNullish)
          next
            case False
            with c have "res = Inr None"
              "s' = s\<lparr>heap := heap s @ [?po],
               orders := dropCid (heap s @ [?po]) (cid ?po) (orders s @ [length (heap s)]),
               trace := trace s @ pre @
                  [PlaceOrder ?po (Inl e) ?b2,
                   Console Warn (createCoreError (OrderPlace
                     (toISOString rt (emit (PlaceOrder ?po (Inl e) (snapshot ?s2)) ?s2)) e))]\<rparr>"
              by (auto simp: catchOpen_eq snap2) (simp add: s1 emit_def)
            with cur ins refl[of ?po] pb show ?thesis using False by (rule Rejected)
          qed
        next
          case (Inr ord)
          let ?b4 = "(heap s @ [?po, ord], orders s @ [length (heap s)])"
          let ?s4 = "(emit (PlaceOrder ?po (Inr ord) (snapshot ?s2)) ?s2)
                \<lparr>heap := heap (emit (PlaceOrder ?po (Inr ord) (snapshot ?s2)) ?s2) @ [ord]\<rparr>"
          have s4: "?s4 = s\<lparr>heap := heap s @ [?po, ord], orders := orders s @ [length (heap s)],
                       trace := trace s @ pre @ [PlaceOrder ?po (Inr ord) ?b2]\<rparr>"
            by (simp add: snap2) (simp add: s1 emit_def)
          have snap4: "snapshot ?s4 = ?b4" by (simp add: s1 snapshot_def)
          have r4: "length (heap s1) = length (heap s)"
            by (simp add: s1)
          obtain r5 s5 where rd: "asyncReduce ps onOpen (OrderArgs ord) ?s4 = (r5, s5)"
            by (cases "asyncReduce ps onOpen (OrderArgs ord) ?s4") blast
          from asyncReduce_run[OF rd] obtain mid where
            s5: "s5 = ?s4\<lparr>trace := trace ?s4 @ mid\<rparr>" and
            sh5': "reduceShape 0 (length ps) onOpen (OrderArgs ord) (snapshot ?s4) r5 mid"
            by blast
          have sh5: "reduceShape 0 (length ps) onOpen (OrderArgs ord) ?b4 r5 mid"
            using sh5' unfolding snap4 .
          have run5l: "catchOpen rt e ?po s5 = (res, s')" if "r5 = Inl e" for e
            using run cur ins sk \<open>r1 = Inr skip\<close> False Inr rd that
            by (simp add: createOrder_def Let_def r4)
          have run5r: "res = Inr (Some (Suc (length (heap s)))) \<and>
                       s' = replacePendingOrder (Suc (length (heap s))) ord s5" if "r5 = Inr u" for u
            using run cur ins sk \<open>r1 = Inr skip\<close> False Inr rd that
            by (simp add: createOrder_def Let_def r4 onOrderOpened_def)
          have s5eq: "s5 = s\<lparr>heap := heap s @ [?po, ord], orders := orders s @ [length (heap s)],
                       trace := trace s @ pre @ [PlaceOrder ?po (Inr ord) ?b2] @ mid\<rparr>"
            using s5 unfolding s4 by simp
          show ?thesis
          proof (cases r5)
            case (Inl e)
            with sh5 obtain mid' j where mid: "mid = mid' @ [Hook j onOpen (OrderArgs ord) (Inl e) ?b4]"
              and j: "j < length ps" and rb: "returnedBelow j onOpen (OrderArgs ord) ?b4 mid'"
              by (auto simp: reduceShape_def)
            define iso where "iso = toISOString rt s5"
            from run5l Inl have c: "catchOpen rt e ?po s5 = (res, s')" by simp
            show ?thesis
            proof (cases "e = Nullish")
              case True
              with c have "res = Inl TypeError" "s' = s5"
                by (auto simp: catchOpen_Nullish)
              then have "res = Inl TypeError"
                "s' = s\<lparr>heap := heap s @ [?po, ord],
                 orders := orders s @ [length (heap s)],
                 trace := trace s @ pre @
                    [PlaceOrder ?po (Inr ord) ?b2] @ mid' @
                    [Hook j onOpen (OrderArgs ord) (Inl Nullish) ?b4]\<rparr>"
                using True by (simp_all add: s5eq mid)
              with cur ins refl[of ?po] pb j rb show ?thesis by (rule OnOpenNullish)
            next
              case False
              with c have "res = Inr None"
                "s' = s5\<lparr>orders := dropCid (heap s5) (cid ?po) (orders s5),
                      trace := trace s5 @ [Console Warn (createCoreError (OrderPlace iso e))]\<rparr>"
                by (auto simp: catchOpen_eq iso_def)
              then have "res = Inr None"
                "s' = s\<lparr>heap := heap s @ [?po, ord],
                 orders := dropCid (heap s @ [?po, ord]) (cid ?po) (orders s @ [length (heap s)]),
                 trace := trace s @ pre @
                    [PlaceOrder ?po (Inr ord) ?b2] @ mid' @
                    [Hook j onOpen (OrderArgs ord) (Inl e) ?b4,
                     Console Warn (createCoreError (OrderPlace iso e))]\<rparr>"
                by (simp_all add: s5eq mid)
              with cur ins refl[of ?po] pb j rb show ?thesis using False by (rule OnOpenThrew)
            qed
          next
            case (Inr u)
            with sh5 have rb: "returnedBelow (length ps) onOpen (OrderArgs ord) ?b4 mid"
              by (auto simp: reduceShape_def)
            from run5r Inr have "res = Inr (Some (Suc (length (heap s))))"
              "s' = replacePendingOrder (Suc (length (heap s))) ord s5"
              by auto
            then have "res = Inr (Some (Suc (length (heap s))))"
              "s' = replacePendingOrder (Suc (length (heap s))) ord
              (s\<lparr>heap := heap s @ [?po, ord],
                 orders := orders s @ [length (heap s)],
                 trace := trace s @ pre @ [PlaceOrder ?po (Inr ord) ?b2] @ mid\<rparr>)"
              by (simp_all add: s5eq)
            with cur ins refl[of ?po] pb rb show ?thesis by (rule Opened)
          qed
        qed
      qed
    qed
  qed
qed

section \<open>Runs of closeOrder\<close>

text \<open>All ways through \<open>closeOrder\<close>; on each of them the heap is the same at the end as at the start.\<close>

lemma lookup_Some: "lookup h r = Some x \<longleftrightarrow> r < length h \<and> h ! r = x"
  by (auto simp: lookup_def)

lemma lookup_update_same: "r < length h \<Longrightarrow> lookup (h[r := y]) r = Some y"
  by (simp add: lookup_def)

lemma setProcessing_eq:
  "lookup (heap s) r = Some x \<Longrightarrow> setProcessing r b s = s\<lparr>heap := (heap s)[r := x\<lparr>processing := b\<rparr>]\<rparr>"
  by (simp add: setProcessing_def)

lemma setProcessing_restore:
  assumes "lookup (heap s) r = Some cl" "\<not> processing cl" "heap t = (heap s)[r := cl\<lparr>processing := True\<rparr>]"
  shows "setProcessing r False t = t\<lparr>heap := heap s\<rparr>"
proof -
  from assms(1) have r: "r < length (heap s)" and cl: "heap s ! r = cl"
    by (auto simp: lookup_Some)
  have "lookup (heap t) r = Some (cl\<lparr>processing := True\<rparr>)"
    using r by (simp add: assms(3) lookup_update_same)
  then have "setProcessing r False t = t\<lparr>heap := (heap t)[r := cl\<lparr>processing := True\<rparr>\<lparr>processing := False\<rparr>]\<rparr>"
    by (rule setProcessing_eq)
  moreover have "cl\<lparr>processing := True\<rparr>\<lparr>processing := False\<rparr> = cl"
    using assms(2) by simp
  moreover have "(heap s)[r := cl] = heap s"
    using cl by (metis list_update_id)
  ultimately show ?thesis
    by (simp add: assms(3))
qed

lemma catchClose_eq:
  "catchClose rt e closing s =
     (Inr None, setProcessing closing False
        (s\<lparr>orders := restoreOrder closing (orders s),
           trace := trace s @ [Console Log (DebutError Core (OrderClose (toISOString rt s) e))]\<rparr>))"
proof -
  let ?c = "Console Log (DebutError Core (OrderClose (toISOString rt s) e))"
  have "(case indexOf (orders (emit ?c s)) closing of
           None \<Rightarrow> (emit ?c s)\<lparr>orders := closing # orders (emit ?c s)\<rparr>
         | Some x \<Rightarrow> emit ?c s)
        = s\<lparr>orders := restoreOrder closing (orders s), trace := trace s @ [?c]\<rparr>"
    by (cases s; cases "indexOf (orders s) closing")
       (auto simp: restoreOrder_def indexOf_None[symmetric] emit_def)
  then show ?thesis
    by (simp add: catchClose_def Let_def)
qed

lemma setProcessing_idle:
  assumes "lookup (heap t) r = Some cl" "\<not> processing cl"
  shows "setProcessing r False t = t"
proof -
  have 1: "cl\<lparr>processing := False\<rparr> = cl" using assms(2) by simp
  have 2: "(heap t)[r := cl] = heap t"
    using assms(1) by (metis list_update_id lookup_Some)
  have "setProcessing r False t = t\<lparr>heap := (heap t)[r := cl\<lparr>processing := False\<rparr>]\<rparr>"
    using assms(1) by (rule setProcessing_eq)
  also have "\<dots> = t" unfolding 1 2 by simp
  finally show ?thesis .
qed

lemma removeClosing_eq:
  "(case indexOf (orders t) closing of Some idx \<Rightarrow> t\<lparr>orders := splice1 idx (orders t)\<rparr> | None \<Rightarrow> t)
     = t\<lparr>orders := remove1 closing (orders t)\<rparr>"
  using indexOf_remove1[of "orders t" closing]
  by (cases "indexOf (orders t) closing") auto

lemma closeOrder_cases [consumes 1, case_names NoObject Guard NoCandle NoInstrument
    BeforeCloseThrew Vetoed Rejected OnCloseThrew Closed]:
  assumes run: "closeOrder ps tr rt closing s = (res, s')"
  obtains
    (NoObject) "lookup (heap s) closing = None" "res = Inl TypeError" "s' = s"
  | (Guard) cl where "lookup (heap s) closing = Some cl" "processing cl \<or> orderId cl = None"
      "res = Inr None" "s' = s"
  | (NoCandle) "currentCandle s = None" "res = Inl TypeError" "s' = s"
  | (NoInstrument) "instrument s = None" "res = Inl TypeError" "s' = s"
  | (BeforeCloseThrew) cl cur ins po cl1 h1 pre j e iso where
      "lookup (heap s) closing = Some cl" "\<not> processing cl" "orderId cl \<noteq> None"
      "currentCandle s = Some cur" "instrument s = Some ins"
      "po = closePendingOrder rt cl cur ins s" "cl1 = cl\<lparr>processing := True\<rparr>"
      "h1 = (heap s)[closing := cl1]"
      "j < length ps" "passedBelow j onBeforeClose (CloseArgs po cl1) (h1, orders s) pre"
      "res = Inr None"
      "s' = s\<lparr>orders := restoreOrder closing (orders s),
               trace := trace s @ pre @ [Hook j onBeforeClose (CloseArgs po cl1) (Inl e) (h1, orders s),
                          Console Log (DebutError Core (OrderClose iso e))]\<rparr>"
  | (Vetoed) cl cur ins po cl1 h1 pre j where
      "lookup (heap s) closing = Some cl" "\<not> processing cl" "orderId cl \<noteq> None"
      "currentCandle s = Some cur" "instrument s = Some ins"
      "po = closePendingOrder rt cl cur ins s" "cl1 = cl\<lparr>processing := True\<rparr>"
      "h1 = (heap s)[closing := cl1]"
      "j < length ps" "passedBelow j onBeforeClose (CloseArgs po cl1) (h1, orders s) pre"
      "res = Inr None"
      "s' = s\<lparr>trace := trace s @ pre @ [Hook j onBeforeClose (CloseArgs po cl1) (Inr True) (h1, orders s)]\<rparr>"
  | (Rejected) cl cur ins po cl1 h1 pre e iso where
      "lookup (heap s) closing = Some cl" "\<not> processing cl" "orderId cl \<noteq> None"
      "currentCandle s = Some cur" "instrument s = Some ins"
      "po = closePendingOrder rt cl cur ins s" "cl1 = cl\<lparr>processing := True\<rparr>"
      "h1 = (heap s)[closing := cl1]"
      "passedBelow (length ps) onBeforeClose (CloseArgs po cl1) (h1, orders s) pre"
      "res = Inr None"
      "s' = s\<lparr>orders := restoreOrder closing (remove1 closing (orders s)),
               trace := trace s @ pre @ [PlaceOrder po (Inl e) (h1, remove1 closing (orders s)),
                          Console Log (DebutError Core (OrderClose iso e))]\<rparr>"
  | (OnCloseThrew) cl cur ins po cl1 h1 pre ord mid j e iso where
      "lookup (heap s) closing = Some cl" "\<not> processing cl" "orderId cl \<noteq> None"
      "currentCandle s = Some cur" "instrument s = Some ins"
      "po = closePendingOrder rt cl cur ins s" "cl1 = cl\<lparr>processing := True\<rparr>"
      "h1 = (heap s)[closing := cl1]"
      "passedBelow (length ps) onBeforeClose (CloseArgs po cl1) (h1, orders s) pre"
      "j < length ps"
      "returnedBelow j onClose (CloseArgs ord cl1) (h1, remove1 closing (orders s)) mid"
      "res = Inr None"
      "s' = s\<lparr>orders := restoreOrder closing (remove1 closing (orders s)),
               trace := trace s @ pre @ [PlaceOrder po (Inr ord) (h1, remove1 closing (orders s))] @ mid @
                         [Hook j onClose (CloseArgs ord cl1) (Inl e) (h1, remove1 closing (orders s)),
                          Console Log (DebutError Core (OrderClose iso e))]\<rparr>"
  | (Closed) cl cur ins po cl1 h1 pre ord mid where
      "lookup (heap s) closing = Some cl" "\<not> processing cl" "orderId cl \<noteq> None"
      "currentCandle s = Some cur" "instrument s = Some ins"
      "po = closePendingOrder rt cl cur ins s" "cl1 = cl\<lparr>processing := True\<rparr>"
      "h1 = (heap s)[closing := cl1]"
      "passedBelow (length ps) onBeforeClose (CloseArgs po cl1) (h1, orders s) pre"
      "returnedBelow (length ps) onClose (CloseArgs ord cl1) (h1, remove1 closing (orders s)) mid"
      "res = Inr (Some ord)"
      "s' = s\<lparr>orders := remove1 closing (orders s),
               trace := trace s @ pre @ [PlaceOrder po (Inr ord) (h1, remove1 closing (orders s))] @ mid\<rparr>"
proof (cases "lookup (heap s) closing")
  case None
  with run have "res = Inl TypeError" "s' = s" by (auto simp: closeOrder_def)
  with None show ?thesis by (rule NoObject)
next
  case cl: (Some cl)
  show ?thesis
  proof (cases "processing cl \<or> orderId cl = None")
    case True
    with run cl have "res = Inr None" "s' = s" by (auto simp: closeOrder_def)
    with cl True show ?thesis by (rule Guard)
  next
    case False
    then have np: "\<not> processing cl" and oid: "orderId cl \<noteq> None" by auto
    show ?thesis
    proof (cases "currentCandle s")
      case None
      with run cl False have "res = Inl TypeError" "s' = s" by (auto simp: closeOrder_def)
      with None show ?thesis by (rule NoCandle)
    next
      case cur: (Some cur)
      show ?thesis
      proof (cases "instrument s")
        case None
        with run cl False cur have "res = Inl TypeError" "s' = s" by (auto simp: closeOrder_def)
        with None show ?thesis by (rule NoInstrument)
      next
        case ins: (Some ins)
        let ?po = "closePendingOrder rt cl cur ins s"
        let ?cl1 = "cl\<lparr>processing := True\<rparr>"
        let ?h1 = "(heap s)[closing := ?cl1]"
        let ?a = "CloseArgs ?po ?cl1"
        let ?s1 = "setProcessing closing True s"
        note facts = cl np oid cur ins refl[of ?po] refl[of ?cl1] refl[of ?h1]
        have s1eq: "?s1 = s\<lparr>heap := ?h1\<rparr>" using cl by (rule setProcessing_eq)
        obtain r2 s2 where sk: "asyncSkipReduce ps onBeforeClose ?a ?s1 = (r2, s2)"
          by (cases "asyncSkipReduce ps onBeforeClose ?a ?s1") blast
        from asyncSkipReduce_run[OF sk] obtain pre where
          s2: "s2 = ?s1\<lparr>trace := trace ?s1 @ pre\<rparr>" and
          sh2': "skipShape 0 (length ps) onBeforeClose ?a (snapshot ?s1) r2 pre"
          by blast
        have s2eq: "s2 = s\<lparr>heap := ?h1, trace := trace s @ pre\<rparr>"
          using s2 unfolding s1eq by simp
        have sh2: "skipShape 0 (length ps) onBeforeClose ?a (?h1, orders s) r2 pre"
          using sh2' unfolding s1eq by (simp add: snapshot_def)
        have restore: "setProcessing closing False t = t\<lparr>heap := heap s\<rparr>" if "heap t = ?h1" for t
          using cl np that by (rule setProcessing_restore)
        have run2: "(case r2 of
             Inl e \<Rightarrow> catchClose rt e closing s2
           | Inr True \<Rightarrow> (Inr None, setProcessing closing False (setProcessing closing False s2))
           | Inr False \<Rightarrow>
             (let s3 = (case indexOf (orders s2) closing of
                  Some idx \<Rightarrow> s2\<lparr>orders := splice1 idx (orders s2)\<rparr>
                | None \<Rightarrow> s2)
              in case placeOrder tr s3 ?po of
                   Inl e \<Rightarrow>
                     catchClose rt e closing (emit (PlaceOrder ?po (Inl e) (snapshot s3)) s3)
                 | Inr ord \<Rightarrow>
                   (let s4 = emit (PlaceOrder ?po (Inr ord) (snapshot s3)) s3
                    in case asyncReduce ps onClose (CloseArgs ord ?cl1) s4 of
                       (Inl e, s5) \<Rightarrow> catchClose rt e closing s5
                     | (Inr _, s5) \<Rightarrow>
                         (case onOrderClosed ord ?cl1 s5 of
                            (Inl e, s6) \<Rightarrow> catchClose rt e closing s6
                          | (Inr _, s6) \<Rightarrow> (Inr (Some ord), setProcessing closing False s6))))) = (res, s')"
          using run cl False cur ins sk
          by (simp add: closeOrder_def Let_def split: sum.splits bool.splits)
        show ?thesis
        proof (cases r2)
          case (Inl e)
          with sh2 obtain pre' j where pre: "pre = pre' @ [Hook j onBeforeClose ?a (Inl e) (?h1, orders s)]"
            and j: "j < length ps" and pb: "passedBelow j onBeforeClose ?a (?h1, orders s) pre'"
            by (auto simp: skipShape_def stoppedAt_def)
          define iso where "iso = toISOString rt s2"
          let ?t = "s2\<lparr>orders := restoreOrder closing (orders s2),
                     trace := trace s2 @ [Console Log (DebutError Core (OrderClose iso e))]\<rparr>"
          from run2 Inl have "catchClose rt e closing s2 = (res, s')" by simp
          then have "res = Inr None" "s' = setProcessing closing False ?t"
            by (auto simp: catchClose_eq iso_def)
          moreover have "setProcessing closing False ?t = ?t\<lparr>heap := heap s\<rparr>"
            by (rule restore) (simp add: s2eq)
          ultimately have "res = Inr None"
            "s' = s\<lparr>orders := restoreOrder closing (orders s),
               trace := trace s @ pre' @ [Hook j onBeforeClose ?a (Inl e) (?h1, orders s),
                          Console Log (DebutError Core (OrderClose iso e))]\<rparr>"
            by (simp_all add: s2eq pre) ((cases s, simp)?)
          with facts j pb show ?thesis by (rule BeforeCloseThrew)
        next
          case (Inr skip)
          show ?thesis
          proof (cases skip)
            case True
            with Inr sh2 obtain pre' j where pre: "pre = pre' @ [Hook j onBeforeClose ?a (Inr True) (?h1, orders s)]"
              and j: "j < length ps" and pb: "passedBelow j onBeforeClose ?a (?h1, orders s) pre'"
              by (auto simp: skipShape_def stoppedAt_def)
            from run2 Inr True
            have "res = Inr None" "s' = setProcessing closing False (setProcessing closing False s2)"
              by auto
            moreover have "setProcessing closing False s2 = s2\<lparr>heap := heap s\<rparr>"
              by (rule restore) (simp add: s2eq)
            moreover have "setProcessing closing False (s2\<lparr>heap := heap s\<rparr>) = s2\<lparr>heap := heap s\<rparr>"
              by (rule setProcessing_idle[OF _ np]) (simp add: cl)
            ultimately have "res = Inr None"
              "s' = s\<lparr>trace := trace s @ pre' @ [Hook j onBeforeClose ?a (Inr True) (?h1, orders s)]\<rparr>"
              by (simp_all add: s2eq pre) ((cases s, simp)?)
            with facts j pb show ?thesis by (rule Vetoed)
          next
            case False
            with Inr sh2 have pb: "passedBelow (length ps) onBeforeClose ?a (?h1, orders s) pre"
              by (auto simp: skipShape_def)
            let ?os3 = "remove1 closing (orders s)"
            let ?b3 = "(?h1, ?os3)"
            let ?s3 = "(case indexOf (orders s2) closing of
                  Some idx \<Rightarrow> s2\<lparr>orders := splice1 idx (orders s2)\<rparr>
                | None \<Rightarrow> s2)"
            have s3eq: "?s3 = s\<lparr>heap := ?h1, orders := ?os3, trace := trace s @ pre\<rparr>"
              unfolding removeClosing_eq by (simp add: s2eq) ((cases s, simp)?)
            have snap3: "snapshot ?s3 = ?b3" unfolding s3eq by (simp add: snapshot_def)
            show ?thesis
            proof (cases "placeOrder tr ?s3 ?po")
              case (Inl e)
              let ?s4 = "emit (PlaceOrder ?po (Inl e) (snapshot ?s3)) ?s3"
              have s4eq: "?s4 = s\<lparr>heap := ?h1, orders := ?os3,
                             trace := trace s @ pre @ [PlaceOrder ?po (Inl e) ?b3]\<rparr>"
                unfolding snap3 unfolding s3eq by (simp add: emit_def)
              define iso where "iso = toISOString rt ?s4"
              let ?t = "?s4\<lparr>orders := restoreOrder closing (orders ?s4),
                     trace := trace ?s4 @ [Console Log (DebutError Core (OrderClose iso e))]\<rparr>"
              from run2 \<open>r2 = Inr skip\<close> False Inl have "catchClose rt e closing ?s4 = (res, s')"
                by (simp add: Let_def)
              then have "res = Inr None" "s' = setProcessing closing False ?t"
                by (auto simp: catchClose_eq iso_def)
              moreover have "setProcessing closing False ?t = ?t\<lparr>heap := heap s\<rparr>"
                by (rule restore) (simp add: s4eq)
              ultimately have "res = Inr None"
                "s' = s\<lparr>orders := restoreOrder closing ?os3,
                   trace := trace s @ pre @ [PlaceOrder ?po (Inl e) ?b3,
                          Console Log (DebutError Core (OrderClose iso e))]\<rparr>"
                unfolding s4eq by simp_all ((cases s, simp)?)
              with facts pb show ?thesis by (rule Rejected)
            next
              case (Inr ord)
              let ?s4 = "emit (PlaceOrder ?po (Inr ord) (snapshot ?s3)) ?s3"
              have s4eq: "?s4 = s\<lparr>heap := ?h1, orders := ?os3,
                             trace := trace s @ pre @ [PlaceOrder ?po (Inr ord) ?b3]\<rparr>"
                unfolding snap3 unfolding s3eq by (simp add: emit_def)
              obtain r5 s5 where rd: "asyncReduce ps onClose (CloseArgs ord ?cl1) ?s4 = (r5, s5)"
                by (cases "asyncReduce ps onClose (CloseArgs ord ?cl1) ?s4") blast
              from asyncReduce_run[OF rd] obtain mid where
                s5: "s5 = ?s4\<lparr>trace := trace ?s4 @ mid\<rparr>" and
                sh5': "reduceShape 0 (length ps) onClose (CloseArgs ord ?cl1) (snapshot ?s4) r5 mid"
                by blast
              have s5eq: "s5 = s\<lparr>heap := ?h1, orders := ?os3,
                             trace := trace s @ pre @ [PlaceOrder ?po (Inr ord) ?b3] @ mid\<rparr>"
                using s5 unfolding s4eq by simp
              have sh5: "reduceShape 0 (length ps) onClose (CloseArgs ord ?cl1) ?b3 r5 mid"
                using sh5' unfolding s4eq by (simp add: snapshot_def)
              have run5l: "catchClose rt e closing s5 = (res, s')" if "r5 = Inl e" for e
                using run2 \<open>r2 = Inr skip\<close> False Inr rd that by (simp add: Let_def)
              have run5r: "res = Inr (Some ord) \<and> s' = setProcessing closing False s5"
                if "r5 = Inr u" for u
                using run2 \<open>r2 = Inr skip\<close> False Inr rd that
                by (simp add: Let_def onOrderClosed_def)
              show ?thesis
              proof (cases r5)
                case (Inl e)
                with sh5 obtain mid' j where
                  mid: "mid = mid' @ [Hook j onClose (CloseArgs ord ?cl1) (Inl e) ?b3]"
                  and j: "j < length ps"
                  and rb: "returnedBelow j onClose (CloseArgs ord ?cl1) ?b3 mid'"
                  by (auto simp: reduceShape_def)
                define iso where "iso = toISOString rt s5"
                let ?t = "s5\<lparr>orders := restoreOrder closing (orders s5),
                     trace := trace s5 @ [Console Log (DebutError Core (OrderClose iso e))]\<rparr>"
                from run5l Inl have "catchClose rt e closing s5 = (res, s')" by simp
                then have "res = Inr None" "s' = setProcessing closing False ?t"
                  by (auto simp: catchClose_eq iso_def)
                moreover have "setProcessing closing False ?t = ?t\<lparr>heap := heap s\<rparr>"
                  by (rule restore) (simp add: s5eq)
                ultimately have "res = Inr None"
                  "s' = s\<lparr>orders := restoreOrder closing ?os3,
                     trace := trace s @ pre @ [PlaceOrder ?po (Inr ord) ?b3] @ mid' @
                         [Hook j onClose (CloseArgs ord ?cl1) (Inl e) ?b3,
                          Console Log (DebutError Core (OrderClose iso e))]\<rparr>"
                  by (simp_all add: s5eq mid) ((cases s, simp)?)
                with facts pb j rb show ?thesis by (rule OnCloseThrew)
              next
                case (Inr u)
                with sh5 have rb: "returnedBelow (length ps) onClose (CloseArgs ord ?cl1) ?b3 mid"
                  by (auto simp: reduceShape_def)
                from run5r Inr have "res = Inr (Some ord)" "s' = setProcessing closing False s5"
                  by auto
                moreover have "setProcessing closing False s5 = s5\<lparr>heap := heap s\<rparr>"
                  by (rule restore) (simp add: s5eq)
                ultimately have "res = Inr (Some ord)"
                  "s' = s\<lparr>orders := ?os3,
                     trace := trace s @ pre @ [PlaceOrder ?po (Inr ord) ?b3] @ mid\<rparr>"
                  by (simp_all add: s5eq) ((cases s, simp)?)
                with facts pb rb show ?thesis by (rule Closed)
              qed
            qed
          qed
        qed
      qed
    qed
  qed
qed

section \<open>Events of a run\<close>

lemma newEvents_upd [simp]: "newEvents s (t\<lparr>trace := trace s @ evs\<rparr>) = evs"
  by (simp add: newEvents_def)

lemma newEvents_replace:
  "newEvents s (replacePendingOrder r ord (t\<lparr>trace := trace s @ evs\<rparr>)) = evs \<or>
   newEvents s (replacePendingOrder r ord (t\<lparr>trace := trace s @ evs\<rparr>))
     = evs @ [ConsoleUnknownOrder (orders t) ord]"
  by (simp add: replacePendingOrder_def emit_def newEvents_def split: option.splits)

lemma replacePendingOrder_heap [simp]: "heap (replacePendingOrder r ord t) = heap t"
  by (simp add: replacePendingOrder_def emit_def split: option.splits)


lemma lookup_append_new [simp]: "lookup (h @ x # xs) (length h) = Some x"
  by (simp add: lookup_def)



section \<open>Hooks that throw, guards, submissions\<close>



lemma closeOrder_guard_noop:
  assumes "lookup (heap s) closing = Some cl" "processing cl \<or> orderId cl = None"
  shows "closeOrder ps tr rt closing s = (Inr None, s)"
  using assms by (auto simp: closeOrder_def)

lemma closeOrder_inflight:
  assumes "closeOrder ps tr rt closing s = (res, s')"
      and "ev \<in> set (newEvents s s')" "eventBook ev = Some (h, os)"
  shows "\<exists>cl. lookup h closing = Some cl \<and> processing cl"
proof -
  have upd: "lookup ((heap s)[closing := cl\<lparr>processing := True\<rparr>]) closing
               = Some (cl\<lparr>processing := True\<rparr>)"
    if "lookup (heap s) closing = Some cl" for cl
    using that by (simp add: lookup_Some lookup_update_same)
  from assms(1) show ?thesis
  proof (cases rule: closeOrder_cases)
    case (BeforeCloseThrew cl cur ins po cl1 h1 pre j e iso)
    with assms(2,3) have "h = h1" by (auto simp: passedBelow_def)
    with upd[OF BeforeCloseThrew(1)] BeforeCloseThrew show ?thesis by simp
  next
    case (Vetoed cl cur ins po cl1 h1 pre j)
    with assms(2,3) have "h = h1" by (auto simp: passedBelow_def)
    with upd[OF Vetoed(1)] Vetoed show ?thesis by simp
  next
    case (Rejected cl cur ins po cl1 h1 pre e iso)
    with assms(2,3) have "h = h1" by (auto simp: passedBelow_def)
    with upd[OF Rejected(1)] Rejected show ?thesis by simp
  next
    case (OnCloseThrew cl cur ins po cl1 h1 pre ord mid j e iso)
    with assms(2,3) have "h = h1" by (auto simp: passedBelow_def returnedBelow_def)
    with upd[OF OnCloseThrew(1)] OnCloseThrew show ?thesis by simp
  next
    case (Closed cl cur ins po cl1 h1 pre ord mid)
    with assms(2,3) have "h = h1" by (auto simp: passedBelow_def returnedBelow_def)
    with upd[OF Closed(1)] Closed show ?thesis by simp
  qed (use assms(2) in \<open>auto simp: newEvents_def\<close>)
qed

lemma filter_isPlaceOrder_hooks:
  "passedBelow n hk a b evs \<Longrightarrow> filter isPlaceOrder evs = []"
  "returnedBelow n hk a b evs \<Longrightarrow> filter isPlaceOrder evs = []"
  by (auto simp: passedBelow_def returnedBelow_def filter_empty_conv)

lemma closeOrder_one_submission:
  assumes "closeOrder ps tr rt closing s = (res, s')"
  shows "length (filter isPlaceOrder (newEvents s s')) \<le> 1"
  using assms
  by (cases rule: closeOrder_cases) (auto simp: filter_isPlaceOrder_hooks newEvents_def)

lemma closeOrder_heap:
  assumes "closeOrder ps tr rt closing s = (res, s')"
  shows "heap s' = heap s"
  using assms by (cases rule: closeOrder_cases) auto

section \<open>Runs of closeAll\<close>

lemma placed_append [simp]: "placed (xs @ ys) = placed xs @ placed ys"
  by (induction xs) (auto split: option.splits)

lemma placed_hooks:
  "passedBelow n hk a b evs \<Longrightarrow> placed evs = []"
  "returnedBelow n hk a b evs \<Longrightarrow> placed evs = []"
  by (induction evs) (auto simp: passedBelow_Cons returnedBelow_Cons)

lemma executedOrders_append [simp]:
  "executedOrders (xs @ ys) = executedOrders xs @ executedOrders ys"
  by (induction xs rule: executedOrders.induct) auto

lemma closeOrder_trace:
  assumes "closeOrder ps tr rt closing s = (res, s')"
  shows "trace s' = trace s @ newEvents s s'"
  using assms by (cases rule: closeOrder_cases) (auto simp: newEvents_def)

lemma closeOrder_placed:
  assumes "closeOrder ps tr rt closing s = (Inr r, s')"
      and "\<forall>i a e b. Hook i onClose a (Inl e) b \<notin> set (newEvents s s')"
  shows "placed (newEvents s s') = executedOrders [r]"
  using assms(1)
proof (cases rule: closeOrder_cases)
  case (OnCloseThrew cl cur ins po cl1 h1 pre ord mid j e iso)
  then have "Hook j onClose (CloseArgs ord cl1) (Inl e) (h1, remove1 closing (orders s))
               \<in> set (newEvents s s')" by simp
  with assms(2) show ?thesis by blast
qed (auto simp: placed_hooks newEvents_def)

lemma closeOrder_success_removes:
  assumes "closeOrder ps tr rt closing s = (Inr (Some ord), s')"
  shows "orders s' = remove1 closing (orders s)"
  using assms by (cases rule: closeOrder_cases) auto

lemma newEvents_trans:
  "trace s1 = trace s @ e1 \<Longrightarrow> trace s2 = trace s1 @ e2 \<Longrightarrow> newEvents s s2 = e1 @ e2"
  by (simp add: newEvents_def)

lemma closeAllLoop_run:
  "closeAllLoop ps tr rt n acc s = (Inr closedOrders, s') \<Longrightarrow>
     length closedOrders = length acc + n \<and>
     take (length acc) closedOrders = acc \<and>
     trace s' = trace s @ newEvents s s' \<and>
     ((\<forall>i a e b. Hook i onClose a (Inl e) b \<notin> set (newEvents s s')) \<longrightarrow>
        executedOrders closedOrders = executedOrders acc @ placed (newEvents s s')) \<and>
     ((\<forall>x\<in>set (drop (length acc) closedOrders). x \<noteq> None) \<longrightarrow> orders s' = drop n (orders s))"
proof (induction n arbitrary: acc s)
  case 0
  then show ?case by (simp add: newEvents_def)
next
  case (Suc n)
  from Suc.prems obtain first rest where os: "orders s = first # rest"
    by (cases "orders s") auto
  obtain r1 s1 where c0: "closeOrder ps tr rt first s = (r1, s1)"
    by (cases "closeOrder ps tr rt first s") blast
  with Suc.prems os
  have "(case r1 of Inl e \<Rightarrow> (Inl e, s1)
         | Inr x \<Rightarrow> closeAllLoop ps tr rt n (acc @ [x]) s1) = (Inr closedOrders, s')"
    by simp
  then obtain r where r1: "r1 = Inr r" and
    rest: "closeAllLoop ps tr rt n (acc @ [r]) s1 = (Inr closedOrders, s')"
    by (cases r1) auto
  have c1: "closeOrder ps tr rt first s = (Inr r, s1)" using c0 r1 by simp
  note t1 = closeOrder_trace[OF c1]
  note ih = Suc.IH[OF rest]
  have len: "length closedOrders = length (acc @ [r]) + n"
    using ih by (rule conjunct1)
  have tk: "take (length (acc @ [r])) closedOrders = acc @ [r]"
    using ih by (elim conjE)
  have t2: "trace s' = trace s1 @ newEvents s1 s'"
    using ih by (elim conjE)
  have pl: "(\<forall>i a e b. Hook i onClose a (Inl e) b \<notin> set (newEvents s1 s')) \<longrightarrow>
        executedOrders closedOrders = executedOrders (acc @ [r]) @ placed (newEvents s1 s')"
    using ih by (elim conjE)
  have dr: "(\<forall>x\<in>set (drop (length (acc @ [r])) closedOrders). x \<noteq> None) \<longrightarrow> orders s' = drop n (orders s1)"
    using ih by (elim conjE)
  have ne: "newEvents s s' = newEvents s s1 @ newEvents s1 s'"
    using t1 t2 by (rule newEvents_trans)
  have tr: "trace s' = trace s @ newEvents s s'"
    using t1 t2 ne by simp
  have tk1: "take (Suc (length acc)) closedOrders = acc @ [r]"
    using tk by simp
  have "take (length acc) closedOrders = take (length acc) (take (Suc (length acc)) closedOrders)"
    by (simp add: min_def)
  also have "\<dots> = acc" unfolding tk1 by simp
  finally have tk': "take (length acc) closedOrders = acc" .
  have "closedOrders ! length acc = take (Suc (length acc)) closedOrders ! length acc"
    by simp
  also have "\<dots> = r" unfolding tk1 by simp
  finally have nth: "closedOrders ! length acc = r" .
  have pl': "executedOrders closedOrders = executedOrders acc @ placed (newEvents s s')"
    if h: "\<forall>i a e b. Hook i onClose a (Inl e) b \<notin> set (newEvents s s')"
  proof -
    from h ne have h1: "\<forall>i a e b. Hook i onClose a (Inl e) b \<notin> set (newEvents s s1)"
      and h2: "\<forall>i a e b. Hook i onClose a (Inl e) b \<notin> set (newEvents s1 s')" by auto
    from closeOrder_placed[OF c1 h1] pl h2 show ?thesis by (simp add: ne)
  qed
  have dr': "orders s' = drop (Suc n) (orders s)"
    if h: "\<forall>x\<in>set (drop (length acc) closedOrders). x \<noteq> None"
  proof -
    have lt: "length acc < length closedOrders" using len by simp
    have d: "drop (length acc) closedOrders = r # drop (Suc (length acc)) closedOrders"
      using nth lt by (metis Cons_nth_drop_Suc)
    with h have "r \<noteq> None" and "\<forall>x\<in>set (drop (length (acc @ [r])) closedOrders). x \<noteq> None"
      by auto
    then obtain ord where "r = Some ord" and o': "orders s' = drop n (orders s1)"
      using dr by auto
    with closeOrder_success_removes[of ps tr rt first s ord s1] c1 os
    show ?thesis by simp
  qed
  have len': "length closedOrders = length acc + Suc n" using len by simp
  show ?case
  proof (intro conjI impI)
    show "length closedOrders = length acc + Suc n" by (rule len')
    show "take (length acc) closedOrders = acc" by (rule tk')
    show "trace s' = trace s @ newEvents s s'" by (rule tr)
    show "executedOrders closedOrders = executedOrders acc @ placed (newEvents s s')"
      if "\<forall>i a e b. Hook i onClose a (Inl e) b \<notin> set (newEvents s s')"
      using that by (rule pl')
    show "orders s' = drop (Suc n) (orders s)"
      if "\<forall>x\<in>set (drop (length acc) closedOrders). x \<noteq> None"
      using that by (rule dr')
  qed
qed

lemma no_errorLine_hooks:
  "passedBelow n hk a b evs \<Longrightarrow> \<not> list_ex isErrorLine evs"
  "returnedBelow n hk a b evs \<Longrightarrow> \<not> list_ex isErrorLine evs"
  by (auto simp: passedBelow_def returnedBelow_def list_ex_iff)

lemma closeOrder_outcome:
  assumes "closeOrder ps tr rt closing s = (Inr r, s')"
  shows "r = closeOutcome (newEvents s s')"
  using assms
  by (cases rule: closeOrder_cases)
     (auto simp: closeOutcome_def placed_hooks no_errorLine_hooks newEvents_def)

lemma closeAllLoop_attempts:
  "closeAllLoop ps tr rt n acc s = (Inr closedOrders, s') \<Longrightarrow>
     \<exists>ss. length ss = Suc n \<and> ss ! 0 = s \<and> ss ! n = s' \<and>
       (\<forall>i<n. orders (ss ! i) \<noteq> [] \<and>
          closeOrder ps tr rt (hd (orders (ss ! i))) (ss ! i)
            = (Inr (closedOrders ! (length acc + i)), ss ! Suc i))"
proof (induction n arbitrary: acc s)
  case 0
  then have "s' = s" by simp
  then have "length [s] = Suc 0 \<and> [s] ! 0 = s \<and> [s] ! 0 = s' \<and>
       (\<forall>i<0::nat. orders ([s] ! i) \<noteq> [] \<and>
          closeOrder ps tr rt (hd (orders ([s] ! i))) ([s] ! i)
            = (Inr (closedOrders ! (length acc + i)), [s] ! Suc i))" by simp
  then show ?case by (rule exI)
next
  case (Suc n)
  from Suc.prems obtain first rest where os: "orders s = first # rest"
    by (cases "orders s") auto
  obtain r1 s1 where c0: "closeOrder ps tr rt first s = (r1, s1)"
    by (cases "closeOrder ps tr rt first s") blast
  with Suc.prems os
  have "(case r1 of Inl e \<Rightarrow> (Inl e, s1)
         | Inr x \<Rightarrow> closeAllLoop ps tr rt n (acc @ [x]) s1) = (Inr closedOrders, s')"
    by simp
  then obtain r where r1: "r1 = Inr r" and
    rest: "closeAllLoop ps tr rt n (acc @ [r]) s1 = (Inr closedOrders, s')"
    by (cases r1) auto
  have c1: "closeOrder ps tr rt first s = (Inr r, s1)" using c0 r1 by simp
  from closeAllLoop_run[OF rest]
  have tk: "take (Suc (length acc)) closedOrders = acc @ [r]" by simp
  have "closedOrders ! length acc = take (Suc (length acc)) closedOrders ! length acc"
    by simp
  also have "\<dots> = r" unfolding tk by simp
  finally have nth: "closedOrders ! length acc = r" .
  from Suc.IH[OF rest] obtain ss where
    len: "length ss = Suc n" and hd: "ss ! 0 = s1" and lst: "ss ! n = s'" and
    step: "\<And>i. i < n \<Longrightarrow> orders (ss ! i) \<noteq> [] \<and>
          closeOrder ps tr rt (hd (orders (ss ! i))) (ss ! i)
            = (Inr (closedOrders ! (length (acc @ [r]) + i)), ss ! Suc i)"
    by blast
  have step': "orders ((s # ss) ! i) \<noteq> [] \<and>
          closeOrder ps tr rt (hd (orders ((s # ss) ! i))) ((s # ss) ! i)
            = (Inr (closedOrders ! (length acc + i)), (s # ss) ! Suc i)" if "i < Suc n" for i
  proof (cases i)
    case 0
    with os c1 nth hd show ?thesis by simp
  next
    case (Suc k)
    with that have "k < n" by simp
    from step[OF this] Suc show ?thesis by simp
  qed
  have "length (s # ss) = Suc (Suc n) \<and> (s # ss) ! 0 = s \<and> (s # ss) ! Suc n = s' \<and>
       (\<forall>i<Suc n. orders ((s # ss) ! i) \<noteq> [] \<and>
          closeOrder ps tr rt (hd (orders ((s # ss) ! i))) ((s # ss) ! i)
            = (Inr (closedOrders ! (length acc + i)), (s # ss) ! Suc i))"
    using len lst step' by simp
  then show ?case by (rule exI)
qed

section \<open>Runs of the tick handler\<close>

lemma hookCalls_append [simp]: "hookCalls hk (xs @ ys) = hookCalls hk xs @ hookCalls hk ys"
  by (induction hk xs rule: hookCalls.induct) auto

lemma hookCalls_other:
  "passedBelow n hk a b evs \<Longrightarrow> hk' \<noteq> hk \<Longrightarrow> hookCalls hk' evs = []"
  "returnedBelow n hk a b evs \<Longrightarrow> hk' \<noteq> hk \<Longrightarrow> hookCalls hk' evs = []"
  by (induction evs) (auto simp: passedBelow_Cons returnedBelow_Cons)

lemma asyncReduceFrom_calls:
  "asyncReduceFrom i ps hk a s = (Inr u, s') \<Longrightarrow>
     hookCalls hk (newEvents s s') = map (\<lambda>j. (j, a)) (attendees i ps hk)"
proof (induction ps arbitrary: i s)
  case Nil
  then show ?case by (simp add: newEvents_def)
next
  case (Cons p ps)
  show ?case
  proof (cases "p hk")
    case None
    with Cons.prems have "asyncReduceFrom (Suc i) ps hk a s = (Inr u, s')" by simp
    from Cons.IH[OF this] None show ?thesis by simp
  next
    case (Some f)
    with Cons.prems obtain v where v: "f s a = Inr v"
      by (cases "f s a") auto
    let ?ev = "Hook i hk a (Inr v) (snapshot s)"
    from Some v Cons.prems
    have run: "asyncReduceFrom (Suc i) ps hk a (emit ?ev s) = (Inr u, s')" by simp
    from asyncReduceFrom_run[OF run] obtain evs where
      s': "s' = (emit ?ev s)\<lparr>trace := trace (emit ?ev s) @ evs\<rparr>" by blast
    then have "newEvents s s' = ?ev # newEvents (emit ?ev s) s'"
      by (simp add: newEvents_def)
    with Cons.IH[OF run] Some show ?thesis by simp
  qed
qed

lemma asyncReduce_calls:
  "asyncReduce ps hk a s = (Inr u, s') \<Longrightarrow>
     hookCalls hk (newEvents s s') = map (\<lambda>j. (j, a)) (attendees 0 ps hk)"
  using asyncReduceFrom_calls[of 0 ps hk a s u s'] by (simp add: asyncReduce_def)

lemma updateCandles_trace [simp]: "trace (updateCandles tick t) = trace t"
  by (simp add: updateCandles_def)

lemma handler_unfold:
  "handler ps tick s =
     (case asyncSkipReduce ps onBeforeTick (TickArgs tick) s of
           (Inl e, s1) \<Rightarrow> (Inl e, s1)
         | (Inr True, s1) \<Rightarrow> (Inr (), s1)
         | (Inr False, s1) \<Rightarrow>
             (case asyncReduce ps onTick (TickArgs tick)
                     (if \<not> change tick s then s1\<lparr>candles := setCurrent tick (candles s1)\<rparr> else s1) of
                   (Inl e, s3) \<Rightarrow> (Inl e, s3)
                 | (Inr _, s3) \<Rightarrow>
                          if change tick s then
                            (case asyncReduce ps onCandle (CandleArgs (currentCandle s3)) s3 of
                                  (Inl e, s5) \<Rightarrow> (Inl e, s5)
                                | (Inr _, s5) \<Rightarrow>
                                         (case asyncReduce ps onAfterCandle (CandleArgs (currentCandle s3)) s5 of
                                            (Inl e, s7) \<Rightarrow> (Inl e, s7)
                                          | (Inr _, s7) \<Rightarrow> (Inr (), updateCandles tick s7)))
                          else (Inr (), s3)))"
  by (simp add: handler_def Let_def change_def onTickExt_def onCandleExt_def
           split: prod.splits sum.splits bool.splits)

lemma handler_cases [consumes 1, case_names BeforeTickStopped Same ChangeThrew New]:
  assumes run: "handler ps tick s = (res, s')"
  obtains
    (BeforeTickStopped) pre j r where
      "r \<noteq> Inr False"
      "s' = s\<lparr>trace := trace s @ pre @ [Hook j onBeforeTick (TickArgs tick) r (snapshot s)]\<rparr>"
  | (Same) evs where "\<not> change tick s"
      "s' = s\<lparr>candles := setCurrent tick (candles s), trace := trace s @ evs\<rparr>"
      "hookCalls onCandle evs = []"
  | (ChangeThrew) evs j hk a e b where "change tick s"
      "s' = s\<lparr>trace := trace s @ evs @ [Hook j hk a (Inl e) b]\<rparr>"
  | (New) evs cd where "change tick s" "res = Inr ()"
      "s' = updateCandles tick (s\<lparr>trace := trace s @ evs @ cd\<rparr>)"
      "hookCalls onCandle evs = []"
      "hookCalls onCandle cd = map (\<lambda>j. (j, CandleArgs (currentCandle s))) (attendees 0 ps onCandle)"
proof -
  let ?a = "TickArgs tick"
  obtain r1 s1 where sk: "asyncSkipReduce ps onBeforeTick ?a s = (r1, s1)"
    by (cases "asyncSkipReduce ps onBeforeTick ?a s") blast
  from asyncSkipReduce_run[OF sk] obtain pre where
    s1: "s1 = s\<lparr>trace := trace s @ pre\<rparr>" and
    sh1: "skipShape 0 (length ps) onBeforeTick ?a (snapshot s) r1 pre"
    by blast
  show ?thesis
  proof (cases "r1 = Inr False")
    case False
    with sh1 obtain pre' j where pre: "pre = pre' @ [Hook j onBeforeTick ?a r1 (snapshot s)]"
      by (auto simp: skipShape_def stoppedAt_def)
    from run sk False have "s' = s1"
      by (cases r1) (auto simp: handler_unfold split: bool.splits)
    with s1 pre have "s' = s\<lparr>trace := trace s @ pre' @ [Hook j onBeforeTick ?a r1 (snapshot s)]\<rparr>"
      by simp
    with False show ?thesis by (rule BeforeTickStopped)
  next
    case True
    with sh1 have pb: "passedBelow (length ps) onBeforeTick ?a (snapshot s) pre"
      by (simp add: skipShape_def)
    have c1: "hookCalls onCandle pre = []"
      using pb by (rule hookCalls_other) simp
    let ?s2 = "if \<not> change tick s then s1\<lparr>candles := setCurrent tick (candles s1)\<rparr> else s1"
    obtain r3 s3 where rd: "asyncReduce ps onTick ?a ?s2 = (r3, s3)"
      by (cases "asyncReduce ps onTick ?a ?s2") blast
    from asyncReduce_run[OF rd] obtain tk where
      s3: "s3 = ?s2\<lparr>trace := trace ?s2 @ tk\<rparr>" and
      sh3: "reduceShape 0 (length ps) onTick ?a (snapshot ?s2) r3 tk"
      by blast
    have cur1: "currentCandle s1 = currentCandle s" by (simp add: s1 currentCandle_def)
    have run3l: "res = Inl e \<and> s' = s3" if "r3 = Inl e" for e
      using run sk True rd that by (simp add: handler_unfold)
    have run3s: "res = Inr () \<and> s' = s3" if "r3 = Inr u" "\<not> change tick s" for u
      using run sk True rd that by (simp add: handler_unfold)
    show ?thesis
    proof (cases "change tick s")
      case False
      have s3eq: "s3 = s\<lparr>candles := setCurrent tick (candles s), trace := trace s @ pre @ tk\<rparr>"
        using s3 False by (simp add: s1)
      from run3l run3s False have "s' = s3" by (cases r3) auto
      with s3eq have s': "s' = s\<lparr>candles := setCurrent tick (candles s), trace := trace s @ (pre @ tk)\<rparr>"
        by simp
      have "hookCalls onCandle tk = []"
      proof (cases r3)
        case (Inl e)
        with sh3 obtain tk' j where "tk = tk' @ [Hook j onTick ?a (Inl e) (snapshot ?s2)]"
          "returnedBelow j onTick ?a (snapshot ?s2) tk'"
          by (auto simp: reduceShape_def)
        then show ?thesis using hookCalls_other(2)[of j onTick ?a _ tk' onCandle] by simp
      next
        case (Inr u)
        with sh3 have "returnedBelow (length ps) onTick ?a (snapshot ?s2) tk"
          by (auto simp: reduceShape_def)
        then show ?thesis by (rule hookCalls_other) simp
      qed
      with c1 have "hookCalls onCandle (pre @ tk) = []" by simp
      with False s' show ?thesis by (rule Same)
    next
      case ch: True
      have s3eq: "s3 = s\<lparr>trace := trace s @ pre @ tk\<rparr>"
        using s3 ch by (simp add: s1)
      show ?thesis
      proof (cases r3)
        case (Inl e)
        with sh3 obtain tk' j where tk: "tk = tk' @ [Hook j onTick ?a (Inl e) (snapshot ?s2)]"
          by (auto simp: reduceShape_def)
        from run3l Inl have "s' = s3" by simp
        with s3eq tk have "s' = s\<lparr>trace := trace s @ (pre @ tk') @ [Hook j onTick ?a (Inl e) (snapshot ?s2)]\<rparr>"
          by simp
        with ch show ?thesis by (rule ChangeThrew)
      next
        case (Inr u)
        with sh3 have rb3: "returnedBelow (length ps) onTick ?a (snapshot ?s2) tk"
          by (auto simp: reduceShape_def)
        have c3: "hookCalls onCandle tk = []"
          using rb3 by (rule hookCalls_other) simp
        have cur3: "currentCandle s3 = currentCandle s" by (simp add: s3eq currentCandle_def)
        let ?c = "CandleArgs (currentCandle s)"
        obtain r5 s5 where rd5: "asyncReduce ps onCandle ?c s3 = (r5, s5)"
          by (cases "asyncReduce ps onCandle ?c s3") blast
        from asyncReduce_run[OF rd5] obtain cd where
          s5: "s5 = s3\<lparr>trace := trace s3 @ cd\<rparr>" and
          sh5: "reduceShape 0 (length ps) onCandle ?c (snapshot s3) r5 cd"
          by blast
        have s5eq: "s5 = s\<lparr>trace := trace s @ pre @ tk @ cd\<rparr>"
          using s5 by (simp add: s3eq)
        have run5l: "res = Inl e \<and> s' = s5" if "r5 = Inl e" for e
          using run sk True rd Inr ch rd5 that by (simp add: handler_unfold cur3)
        show ?thesis
        proof (cases r5)
          case (Inl e)
          with sh5 obtain cd' j where cd: "cd = cd' @ [Hook j onCandle ?c (Inl e) (snapshot s3)]"
            by (auto simp: reduceShape_def)
          from run5l Inl have "s' = s5" by simp
          with s5eq cd have "s' = s\<lparr>trace := trace s @ (pre @ tk @ cd') @ [Hook j onCandle ?c (Inl e) (snapshot s3)]\<rparr>"
            by simp
          with ch show ?thesis by (rule ChangeThrew)
        next
          case r5: (Inr u5)
          have calls5: "hookCalls onCandle cd = map (\<lambda>j. (j, ?c)) (attendees 0 ps onCandle)"
            using asyncReduce_calls[of ps onCandle ?c s3 u5 s5] rd5 r5 s5
            by (simp add: newEvents_def)
          obtain r7 s7 where rd7: "asyncReduce ps onAfterCandle ?c s5 = (r7, s7)"
            by (cases "asyncReduce ps onAfterCandle ?c s5") blast
          from asyncReduce_run[OF rd7] obtain ac where
            s7: "s7 = s5\<lparr>trace := trace s5 @ ac\<rparr>" and
            sh7: "reduceShape 0 (length ps) onAfterCandle ?c (snapshot s5) r7 ac"
            by blast
          have s7eq: "s7 = s\<lparr>trace := trace s @ pre @ tk @ cd @ ac\<rparr>"
            using s7 by (simp add: s5eq)
          show ?thesis
          proof (cases r7)
            case (Inl e)
            with sh7 obtain ac' j where ac: "ac = ac' @ [Hook j onAfterCandle ?c (Inl e) (snapshot s5)]"
              by (auto simp: reduceShape_def)
            from run sk True rd \<open>r3 = Inr u\<close> ch rd5 r5 rd7 Inl have "s' = s7"
              by (simp add: handler_unfold cur3)
            with s7eq ac have "s' = s\<lparr>trace := trace s @ (pre @ tk @ cd @ ac') @
                   [Hook j onAfterCandle ?c (Inl e) (snapshot s5)]\<rparr>"
              by simp
            with ch show ?thesis by (rule ChangeThrew)
          next
            case (Inr u7)
            with sh7 have rb7: "returnedBelow (length ps) onAfterCandle ?c (snapshot s5) ac"
              by (auto simp: reduceShape_def)
            have c7: "hookCalls onCandle ac = []"
              using rb7 by (rule hookCalls_other) simp
            from run sk True rd \<open>r3 = Inr u\<close> ch rd5 r5 rd7 Inr
            have "res = Inr ()" "s' = updateCandles tick s7"
              by (simp_all add: handler_unfold cur3)
            then have "res = Inr ()"
              "s' = updateCandles tick (s\<lparr>trace := trace s @ (pre @ tk) @ (cd @ ac)\<rparr>)"
              by (simp_all add: s7eq)
            moreover have "hookCalls onCandle (pre @ tk) = []" using c1 c3 by simp
            moreover have "hookCalls onCandle (cd @ ac)
                 = map (\<lambda>j. (j, ?c)) (attendees 0 ps onCandle)"
              using calls5 c7 by simp
            ultimately show ?thesis using ch by (intro New)
          qed
        qed
      qed
    qed
  qed
qed

section \<open>The candle window\<close>

lemma windowOk_setCurrent:
  "windowOk s \<Longrightarrow> windowOk (s\<lparr>candles := setCurrent tick (candles s)\<rparr>)"
  by (cases "candles s") (auto simp: windowOk_def setCurrent_def)

lemma windowOk_trace: "windowOk (s\<lparr>trace := t\<rparr>) = windowOk s"
  by (simp add: windowOk_def)

lemma windowOk_updateCandles: "windowOk s \<Longrightarrow> windowOk (updateCandles tick s)"
  by (auto simp: windowOk_def updateCandles_def)

lemma handler_windowOk:
  assumes "windowOk s"
  shows "windowOk (snd (handler ps tick s))"
proof -
  obtain res s' where run: "handler ps tick s = (res, s')"
    by (cases "handler ps tick s") blast
  from run have "windowOk s'"
  proof (cases rule: handler_cases)
    case (New evs cd)
    then show ?thesis
      using assms windowOk_updateCandles[of "s\<lparr>trace := trace s @ evs @ cd\<rparr>" tick]
      by (simp add: windowOk_trace)
  qed (use assms in \<open>simp_all add: windowOk_trace windowOk_setCurrent\<close>)
  with run show ?thesis by simp
qed

lemma feed_windowOk: "windowOk s \<Longrightarrow> windowOk (feed ps ticks s)"
  by (induction ticks arbitrary: s) (auto intro: handler_windowOk)

lemma constructor_fresh:
  assumes "constructor nm input = Inr s0"
  shows "candles s0 = []" "\<not> updateCandlesSwapped s0" "trace s0 = []" "orders s0 = []"
    "heap s0 = []" "opts s0 = defaultOptions ++ input"
  using assms by (auto simp: constructor_def Let_def split: sum.splits)

section \<open>Hook invocations per plugin\<close>

lemma attendees_filter:
  "attendees k ps hk = filter (\<lambda>j. (ps ! (j - k)) hk \<noteq> None) [k..<k + length ps]"
proof (induction ps arbitrary: k)
  case Nil
  then show ?case by simp
next
  case (Cons p ps)
  let ?P = "\<lambda>j. ((p # ps) ! (j - k)) hk \<noteq> None"
  have E: "filter (\<lambda>j. (ps ! (j - Suc k)) hk \<noteq> None) [Suc k..<Suc k + length ps]
      = filter ?P [Suc k..<Suc k + length ps]"
  proof (rule filter_cong[OF refl])
    fix j assume "j \<in> set [Suc k..<Suc k + length ps]"
    then have "j - k = Suc (j - Suc k)" by auto
    then show "((ps ! (j - Suc k)) hk \<noteq> None) = (((p # ps) ! (j - k)) hk \<noteq> None)"
      by simp
  qed
  have U: "[k..<k + length (p # ps)] = k # [Suc k..<Suc k + length ps]"
    by (subst upt_rec) simp
  have "attendees k (p # ps) hk
          = (if p hk = None then [] else [k]) @ filter ?P [Suc k..<Suc k + length ps]"
    using Cons.IH[of "Suc k"] E by (simp del: upt_Suc)
  also have "\<dots> = filter ?P (k # [Suc k..<Suc k + length ps])"
    by (simp del: upt_Suc)
  finally show ?case unfolding U .
qed

lemma count_list_distinct:
  "distinct xs \<Longrightarrow> count_list xs x = (if x \<in> set xs then 1 else 0)"
  by (induction xs) auto

lemma attendees_count:
  "count_list (attendees 0 ps hk) i = (if i < length ps \<and> (ps ! i) hk \<noteq> None then 1 else 0)"
  by (simp add: attendees_filter count_list_distinct)

lemma handler_trace:
  assumes "handler ps tick s = (res, s')"
  shows "trace s' = trace s @ newEvents s s'"
  using assms by (cases rule: handler_cases) (simp_all add: newEvents_def)

lemma handler_quiet:
  assumes run: "handler ps tick s = (res, s')"
      and q: "\<forall>ev\<in>set (newEvents s s'). \<not> stops ev"
  shows "candles s' = (if change tick s then candles (updateCandles tick s)
                       else setCurrent tick (candles s))"
    and "updateCandlesSwapped s' = (if change tick s then updateCandlesSwapped (updateCandles tick s)
                       else updateCandlesSwapped s)"
    and "hookCalls onCandle (newEvents s s') =
           (if change tick s
            then map (\<lambda>j. (j, CandleArgs (currentCandle s))) (attendees 0 ps onCandle) else [])"
proof -
  have "candles s' = (if change tick s then candles (updateCandles tick s)
                       else setCurrent tick (candles s)) \<and>
        updateCandlesSwapped s' = (if change tick s then updateCandlesSwapped (updateCandles tick s)
                       else updateCandlesSwapped s) \<and>
        hookCalls onCandle (newEvents s s') =
           (if change tick s
            then map (\<lambda>j. (j, CandleArgs (currentCandle s))) (attendees 0 ps onCandle) else [])"
    using run
  proof (cases rule: handler_cases)
    case (BeforeTickStopped pre j r)
    then have "Hook j onBeforeTick (TickArgs tick) r (snapshot s) \<in> set (newEvents s s')"
      by simp
    moreover have "stops (Hook j onBeforeTick (TickArgs tick) r (snapshot s))"
      using BeforeTickStopped(1) by (cases r) auto
    ultimately show ?thesis using q by blast
  next
    case (Same evs)
    then show ?thesis by simp
  next
    case (ChangeThrew evs j hk a e b)
    then have "Hook j hk a (Inl e) b \<in> set (newEvents s s')" by simp
    with q show ?thesis by fastforce
  next
    case (New evs cd)
    then show ?thesis by (simp add: updateCandles_def newEvents_def)
  qed
  then show "candles s' = (if change tick s then candles (updateCandles tick s)
                       else setCurrent tick (candles s))"
    and "updateCandlesSwapped s' = (if change tick s then updateCandlesSwapped (updateCandles tick s)
                       else updateCandlesSwapped s)"
    and "hookCalls onCandle (newEvents s s') =
           (if change tick s
            then map (\<lambda>j. (j, CandleArgs (currentCandle s))) (attendees 0 ps onCandle) else [])"
    by blast+
qed

section \<open>The example configuration, evaluated\<close>

lemma startState_simps [simp]:
  "candles startState = []" "instrument startState = None" "heap startState = []"
  "orders startState = []" "trace startState = []" "\<not> updateCandlesSwapped startState"
  by (simp_all add: startState_def)

lemma exampleState_simps [simp]:
  "candles exampleState = [exampleTick 0 10]" "instrument exampleState = Some exampleInstrument"
  "heap exampleState = []" "orders exampleState = []" "trace exampleState = []"
  by (simp_all add: exampleState_def)

lemma examplePending_simps [simp]:
  "orderId examplePending = None" "\<not> processing examplePending"
  "cid examplePending = 10 ^ 17 / 2"
  by (simp_all add: examplePending_def openPendingOrder_def Let_def exampleRuntime_def)

lemma exampleExecuted_simps [simp]:
  "orderId exampleExecuted = Some (Str ''7'')" "\<not> processing exampleExecuted"
  "cid exampleExecuted = cid examplePending"
  by (simp_all add: exampleExecuted_def)

lemma heldOrder_simps [simp]:
  "orderId heldOrder = Some (Str ''7'')" "\<not> processing heldOrder" "cid heldOrder = 42"
  by (simp_all add: heldOrder_def)

lemma openPendingOrder_simps [simp]:
  "cid (openPendingOrder tr exampleRuntime operation cur ins s) = 10 ^ 17 / 2"
  "orderId (openPendingOrder tr rt operation cur ins s) = None"
  "\<not> processing (openPendingOrder tr rt operation cur ins s)"
  by (simp_all add: openPendingOrder_def Let_def exampleRuntime_def)

lemma holdingState_simps [simp]:
  "candles holdingState = [exampleTick 0 10]" "instrument holdingState = Some exampleInstrument"
  "heap holdingState = [heldOrder]" "orders holdingState = [0]" "trace holdingState = []"
  by (simp_all add: holdingState_def)

lemma collidingState_simps [simp]:
  "candles collidingState = [exampleTick 0 10]" "instrument collidingState = Some exampleInstrument"
  "heap collidingState = [exampleExecuted]" "orders collidingState = [0]" "trace collidingState = []"
  by (simp_all add: collidingState_def)

lemma pendingState_simps [simp]:
  "candles pendingState = [exampleTick 0 10]" "instrument pendingState = Some exampleInstrument"
  "heap pendingState = [examplePending]" "orders pendingState = [0]" "trace pendingState = []"
  by (simp_all add: pendingState_def)

lemma constructor_example: "constructor ''Strategy'' exampleOptions = Inr startState"
  by (simp add: constructor_def validateConfig_def startState_def getProp_def exampleOptions_def
        defaultOptions_def Let_def)

lemma transport_simps [simp]:
  "placeOrder acceptingTransport s p = Inr (p\<lparr>orderId := Some (Str ''7''), executedLots := lots p\<rparr>)"
  "placeOrder rejectingTransport s p = Inl (Thrown ''rejected'')"
  "placeOrder nullRejectingTransport s p = Inl Nullish"
  by (simp_all add: acceptingTransport_def rejectingTransport_def nullRejectingTransport_def)

lemma runtime_simps [simp]:
  "toISOString exampleRuntime s = ''2021-01-01T00:00:00.000Z''"
  by (simp add: exampleRuntime_def)

lemmas run_defs = createOrder_def closeOrder_def currentCandle_def asyncSkipReduce_def
  asyncReduce_def emit_def snapshot_def Let_def catchOpen_eq catchOpen_Nullish catchClose_eq
  dropCid_def
  createCoreError_def onOrderOpened_def onOrderClosed_def replacePendingOrder_def
  findIndex_Cons cidIs_def lookup_def restoreOrder_def setProcessing_def indexOf_def
  newEvents_def

lemma veto_run:
  "fst (createOrder [vetoPlugin] acceptingTransport exampleRuntime BUY exampleState) = Inr None"
  "heap (snd (createOrder [vetoPlugin] acceptingTransport exampleRuntime BUY exampleState)) = []"
  "orders (snd (createOrder [vetoPlugin] acceptingTransport exampleRuntime BUY exampleState)) = []"
  "trace (snd (createOrder [vetoPlugin] acceptingTransport exampleRuntime BUY exampleState)) =
     [Hook 0 onBeforeOpen (OrderArgs examplePending) (Inr True) ([], [])]"
  by (simp_all add: run_defs vetoPlugin_def examplePending_def[symmetric])









lemma close_run:
  "fst (closeOrder [] acceptingTransport exampleRuntime 0 holdingState) =
     Inr (Some ((closePendingOrder exampleRuntime heldOrder (exampleTick 0 10) exampleInstrument
                    holdingState)\<lparr>orderId := Some (Str ''7''),
                      executedLots := lots (closePendingOrder exampleRuntime heldOrder
                         (exampleTick 0 10) exampleInstrument holdingState)\<rparr>))"
  "orders (snd (closeOrder [] acceptingTransport exampleRuntime 0 holdingState)) = []"
  "trace (snd (closeOrder [] acceptingTransport exampleRuntime 0 holdingState)) =
     [PlaceOrder (closePendingOrder exampleRuntime heldOrder (exampleTick 0 10) exampleInstrument
                    holdingState)
        (Inr ((closePendingOrder exampleRuntime heldOrder (exampleTick 0 10) exampleInstrument
                    holdingState)\<lparr>orderId := Some (Str ''7''),
                      executedLots := lots (closePendingOrder exampleRuntime heldOrder
                         (exampleTick 0 10) exampleInstrument holdingState)\<rparr>))
        ([heldOrder\<lparr>processing := True\<rparr>], [])]"
  by (simp_all add: run_defs)

lemma close_twice_run:
  "fst (closeOrder [] acceptingTransport exampleRuntime 0
          (snd (closeOrder [] acceptingTransport exampleRuntime 0 holdingState))) \<noteq> Inr None"
  "length (filter isPlaceOrder (trace (snd (closeOrder [] acceptingTransport exampleRuntime 0
          (snd (closeOrder [] acceptingTransport exampleRuntime 0 holdingState)))))) = 2"
  "length (placed (trace (snd (closeOrder [] acceptingTransport exampleRuntime 0
          (snd (closeOrder [] acceptingTransport exampleRuntime 0 holdingState)))))) = 2"
  by (simp_all add: run_defs)

lemma closeAll_runs:
  "closeAll [] acceptingTransport exampleRuntime exampleState = (Inr None, exampleState)"
  "closeAll [] acceptingTransport exampleRuntime pendingState = (Inr (Some [None]), pendingState)"
  "fst (closeAll [] acceptingTransport exampleRuntime holdingState) =
     Inr (Some [Some ((closePendingOrder exampleRuntime heldOrder (exampleTick 0 10) exampleInstrument
                    holdingState)\<lparr>orderId := Some (Str ''7''),
                      executedLots := lots (closePendingOrder exampleRuntime heldOrder
                         (exampleTick 0 10) exampleInstrument holdingState)\<rparr>)])"
  by (simp_all add: closeAll_def run_defs)

lemma closeAll_failed_run:
  "fst (closeAll [] rejectingTransport exampleRuntime holdingState) = Inr (Some [None])"
  "orders (snd (closeAll [] rejectingTransport exampleRuntime holdingState)) = [0]"
  by (simp_all add: closeAll_def run_defs)

lemma tick_run:
  "trace (feed [observerPlugin] [exampleTick 0 10, exampleTick 0 11, exampleTick 60 12] startState)
     = [Hook 0 onCandle (CandleArgs (Some (exampleTick 0 11))) (Inr False) ([], [])]"
  by (simp add: handler_unfold change_def run_defs observerPlugin_def setCurrent_def
        updateCandles_def exampleTick_def)

lemma failing_tick_run:
  "candles (feed [failingPlugin] [exampleTick 0 10, exampleTick 0 11, exampleTick 60 12] startState)
     = [exampleTick 0 11]"
  "trace (feed [failingPlugin] [exampleTick 0 10, exampleTick 0 11, exampleTick 60 12] startState)
     = [Hook 0 onAfterCandle (CandleArgs (Some (exampleTick 0 11))) (Inl (Thrown ''boom'')) ([], [])]"
  by (simp_all add: handler_unfold change_def run_defs failingPlugin_def setCurrent_def
        updateCandles_def exampleTick_def)

lemma window_run:
  "candles (feed [] (map (\<lambda>n. exampleTick (real n) 1) [0, 1, 2, 3, 4, 5, 6, 7, 8, 9, 10, 11])
              startState)
     = map (\<lambda>n. exampleTick (real n) 1) [11, 10, 9, 8, 7, 6, 5, 4, 3, 2]"
  by (simp add: handler_unfold change_def run_defs setCurrent_def updateCandles_def exampleTick_def)

section \<open>Well-formed states\<close>

text \<open>The constructor returns a well-formed state, and \<open>createOrder\<close>, \<open>closeOrder\<close>, \<open>closeAll\<close> and the tick handler keep a state well formed.\<close>

lemma splice1_subset: "set (splice1 i xs) \<subseteq> set xs"
  unfolding splice1_def using set_take_subset[of i xs] set_drop_subset[of "Suc i" xs] by auto

lemma dropCid_subset: "set (dropCid h k os) \<subseteq> set os"
  by (cases "findIndex (cidIs h k) os") (simp_all add: dropCid_def splice1_subset)

lemma wellFormed_createOrder:
  assumes "createOrder ps tr rt operation s = (res, s')" "wellFormed s"
  shows "wellFormed s'"
  using assms(1)
proof (cases rule: createOrder_cases)
  case (BeforeOpenThrew cur ins po pre j e iso)
  with assms(2) dropCid_subset[of "heap s" "cid po" "orders s"] show ?thesis
    by (auto simp: wellFormed_def)
next
  case (Rejected cur ins po pre e iso)
  with assms(2) dropCid_subset[of "heap s @ [po]" "cid po" "orders s @ [length (heap s)]"]
  show ?thesis by (fastforce simp: wellFormed_def)
next
  case (OnOpenThrew cur ins po pre ord mid j e iso)
  with assms(2) dropCid_subset[of "heap s @ [po, ord]" "cid po" "orders s @ [length (heap s)]"]
  show ?thesis by (fastforce simp: wellFormed_def)
next
  case (RejectedNullish cur ins po pre)
  with assms(2) show ?thesis by (fastforce simp: wellFormed_def)
next
  case (OnOpenNullish cur ins po pre ord mid j)
  with assms(2) show ?thesis by (fastforce simp: wellFormed_def)
next
  case (Opened cur ins po pre ord mid)
  have "set ((orders s @ [length (heap s)])[i := Suc (length (heap s))])
          \<subseteq> insert (Suc (length (heap s))) (set (orders s @ [length (heap s)]))" for i
    by (rule set_update_subset_insert)
  with Opened assms(2) show ?thesis
    by (fastforce simp: wellFormed_def replacePendingOrder_def emit_def split: option.splits)
qed (use assms(2) in \<open>auto simp: wellFormed_def\<close>)

lemma wellFormed_closeOrder:
  assumes "closeOrder ps tr rt closing s = (res, s')" "wellFormed s"
  shows "wellFormed s'"
proof -
  have r: "set (remove1 closing (orders s)) \<subseteq> set (orders s)" by (rule set_remove1_subset)
  from assms(1) show ?thesis
    by (cases rule: closeOrder_cases)
       (use assms(2) r in \<open>auto simp: wellFormed_def restoreOrder_def lookup_Some\<close>)
qed

lemma wellFormed_constructor: "constructor nm input = Inr s \<Longrightarrow> wellFormed s"
  using constructor_fresh(4)[of nm input s] by (simp add: wellFormed_def)

lemma wellFormed_handler:
  assumes "handler ps tick s = (res, s')" "wellFormed s"
  shows "wellFormed s'"
  using assms(1)
  by (cases rule: handler_cases)
     (use assms(2) in \<open>auto simp: wellFormed_def updateCandles_def\<close>)

lemma wellFormed_closeAllLoop:
  "closeAllLoop ps tr rt n acc s = (res, s') \<Longrightarrow> wellFormed s \<Longrightarrow> wellFormed s'"
proof (induction n arbitrary: acc s)
  case 0
  then show ?case by simp
next
  case (Suc n)
  show ?case
  proof (cases "orders s")
    case Nil
    with Suc.prems show ?thesis by simp
  next
    case (Cons first rest)
    obtain r1 s1 where c: "closeOrder ps tr rt first s = (r1, s1)"
      by (cases "closeOrder ps tr rt first s") blast
    from wellFormed_closeOrder[OF c Suc.prems(2)] have w1: "wellFormed s1" .
    show ?thesis
    proof (cases r1)
      case (Inl e)
      with Suc.prems(1) Cons c w1 show ?thesis by simp
    next
      case (Inr x)
      with Suc.prems(1) Cons c
      have "closeAllLoop ps tr rt n (acc @ [x]) s1 = (res, s')" by simp
      from Suc.IH[OF this w1] show ?thesis .
    qed
  qed
qed

lemma wellFormed_closeAll:
  assumes "closeAll ps tr rt s = (res, s')" "wellFormed s"
  shows "wellFormed s'"
proof (cases "orders s = []")
  case True
  with assms show ?thesis by (simp add: closeAll_def)
next
  case False
  obtain r1 s1 where c: "closeAllLoop ps tr rt (length (orders s)) [] s = (r1, s1)"
    by (cases "closeAllLoop ps tr rt (length (orders s)) [] s") blast
  from wellFormed_closeAllLoop[OF c assms(2)] have "wellFormed s1" .
  with assms(1) False c show ?thesis
    by (cases r1) (auto simp: closeAll_def)
qed

section \<open>closeAll returns\<close>

text \<open>From a well-formed state with a current candle and an instrument, no close attempt of \<open>closeAll\<close> throws and the order book does not run empty before the loop ends.\<close>

lemma closeOrder_returns:
  assumes "closeOrder ps tr rt closing s = (res, s')"
      and "lookup (heap s) closing \<noteq> None" "currentCandle s \<noteq> None" "instrument s \<noteq> None"
  shows "\<exists>r. res = Inr r"
  using assms(1) by (cases rule: closeOrder_cases) (use assms(2-4) in auto)

lemma closeOrder_frame:
  assumes "closeOrder ps tr rt closing s = (res, s')"
  shows "candles s' = candles s \<and> instrument s' = instrument s \<and>
         length (orders s) \<le> Suc (length (orders s'))"
  using assms
  by (cases rule: closeOrder_cases)
     (auto simp: restoreOrder_def length_remove1 split: option.splits)

lemma closeAllLoop_returns:
  "n \<le> length (orders s) \<Longrightarrow> wellFormed s \<Longrightarrow> currentCandle s \<noteq> None \<Longrightarrow>
   instrument s \<noteq> None \<Longrightarrow>
     \<exists>closedOrders s'. closeAllLoop ps tr rt n acc s = (Inr closedOrders, s')"
proof (induction n arbitrary: acc s)
  case 0
  then show ?case by simp
next
  case (Suc n)
  from Suc.prems(1) obtain first rest where os: "orders s = first # rest"
    by (cases "orders s") auto
  obtain r1 s1 where c: "closeOrder ps tr rt first s = (r1, s1)"
    by (cases "closeOrder ps tr rt first s") blast
  from Suc.prems(2) os have "lookup (heap s) first \<noteq> None"
    by (simp add: wellFormed_def lookup_def)
  from closeOrder_returns[OF c this Suc.prems(3,4)] obtain r where r: "r1 = Inr r" by blast
  note fr = closeOrder_frame[OF c]
  have 1: "n \<le> length (orders s1)" using fr Suc.prems(1) by simp
  have 2: "wellFormed s1" using wellFormed_closeOrder[OF c Suc.prems(2)] .
  have 3: "currentCandle s1 \<noteq> None" using fr Suc.prems(3) by (simp add: currentCandle_def)
  have 4: "instrument s1 \<noteq> None" using fr Suc.prems(4) by simp
  from Suc.IH[OF 1 2 3 4, of "acc @ [r]"] os c r show ?case by simp
qed

section \<open>The claims\<close>

subsection \<open>C1: closing all orders\<close>

text \<open>
  C1 says that \<open>closeAll\<close> returns the list of the successfully closed orders and
  leaves out every close that was a no-op or failed. The code pushes whatever
  \<open>closeOrder\<close> returned, also \<open>undefined\<close>. With one executed order in the book
  and a transport that rejects, the close fails, the order stays in the book and
  the returned array is \<open>[undefined]\<close>, not the empty array; with one pending
  order in the book the close is a no-op (nothing is submitted) and the returned
  array is \<open>[undefined]\<close> as well.
\<close>

theorem closeAll_noop_entry:
  "fst (closeAll [] rejectingTransport exampleRuntime holdingState) = Inr (Some [None]) \<and>
   orders (snd (closeAll [] rejectingTransport exampleRuntime holdingState)) = [0] \<and>
   fst (closeAll [] acceptingTransport exampleRuntime pendingState) = Inr (Some [None]) \<and>
   trace (snd (closeAll [] acceptingTransport exampleRuntime pendingState)) = []"
  by (simp add: closeAll_runs closeAll_failed_run)

text \<open>
  C1, as the code has it. On an empty order book \<open>closeAll\<close> returns \<open>undefined\<close> and
  changes nothing. On a non-empty order book it makes one close attempt after the
  other, as many as the snapshot has entries, and returns an array with exactly one
  entry per attempt, in the order of the attempts. The states \<open>ss\<close> are the state
  before the first attempt, the states between the attempts and the state after
  the last: attempt \<open>i\<close> is the call of \<open>closeOrder\<close> in state \<open>ss ! i\<close>, on the
  first entry of the order book of that state; it leaves state \<open>ss ! Suc i\<close>, and
  what it returns is entry \<open>i\<close> of the array. That entry is what the events of the
  attempt say: the executed order that the transport returned if the attempt
  succeeded, \<open>undefined\<close> if it wrote an error to the console (it failed) or got no
  order from the transport (a no-op or a veto). Moreover the length of the array is
  the length of the snapshot; if no \<open>onClose\<close> hook threw, the entries that are not
  \<open>undefined\<close> are, in order, exactly the executed orders that the successful
  submissions to the transport returned; and if no entry is \<open>undefined\<close> the order
  book is empty afterwards. Last part: from a well-formed state with a current
  candle and an instrument \<open>closeAll\<close> does not throw, whatever the plugins and
  the transport do.
\<close>

theorem closeAll_results:
  "(orders s = [] \<longrightarrow> closeAll ps tr rt s = (Inr None, s)) \<and>
   (orders s \<noteq> [] \<and> closeAll ps tr rt s = (Inr res, s') \<longrightarrow>
      (\<exists>closedOrders ss. res = Some closedOrders \<and>
         length closedOrders = length (orders s) \<and>
         length ss = Suc (length (orders s)) \<and> ss ! 0 = s \<and> ss ! length (orders s) = s' \<and>
         (\<forall>i<length (orders s). orders (ss ! i) \<noteq> [] \<and>
            closeOrder ps tr rt (hd (orders (ss ! i))) (ss ! i)
              = (Inr (closedOrders ! i), ss ! Suc i) \<and>
            closedOrders ! i = closeOutcome (newEvents (ss ! i) (ss ! Suc i))) \<and>
         ((\<forall>i a e b. Hook i onClose a (Inl e) b \<notin> set (newEvents s s')) \<longrightarrow>
            executedOrders closedOrders = placed (newEvents s s')) \<and>
         ((\<forall>x\<in>set closedOrders. x \<noteq> None) \<longrightarrow> orders s' = []))) \<and>
   (wellFormed s \<and> currentCandle s \<noteq> None \<and> instrument s \<noteq> None \<longrightarrow>
      (\<exists>res. fst (closeAll ps tr rt s) = Inr res))"
proof (intro conjI impI)
  assume "orders s = []"
  then show "closeAll ps tr rt s = (Inr None, s)" by (simp add: closeAll_def)
next
  assume a: "orders s \<noteq> [] \<and> closeAll ps tr rt s = (Inr res, s')"
  then obtain closedOrders where
    run: "closeAllLoop ps tr rt (length (orders s)) [] s = (Inr closedOrders, s')" and
    res: "res = Some closedOrders"
    by (auto simp: closeAll_def split: prod.splits sum.splits)
  from closeAllLoop_attempts[OF run] obtain ss where
    len: "length ss = Suc (length (orders s))" and hd: "ss ! 0 = s" and
    lst: "ss ! length (orders s) = s'" and
    step: "\<And>i. i < length (orders s) \<Longrightarrow> orders (ss ! i) \<noteq> [] \<and>
          closeOrder ps tr rt (hd (orders (ss ! i))) (ss ! i)
            = (Inr (closedOrders ! i), ss ! Suc i)"
    by auto
  have att: "\<forall>i<length (orders s). orders (ss ! i) \<noteq> [] \<and>
            closeOrder ps tr rt (hd (orders (ss ! i))) (ss ! i)
              = (Inr (closedOrders ! i), ss ! Suc i) \<and>
            closedOrders ! i = closeOutcome (newEvents (ss ! i) (ss ! Suc i))"
  proof (intro allI impI)
    fix i assume "i < length (orders s)"
    from step[OF this] closeOrder_outcome[of ps tr rt "hd (orders (ss ! i))" "ss ! i"
        "closedOrders ! i" "ss ! Suc i"]
    show "orders (ss ! i) \<noteq> [] \<and>
            closeOrder ps tr rt (hd (orders (ss ! i))) (ss ! i)
              = (Inr (closedOrders ! i), ss ! Suc i) \<and>
            closedOrders ! i = closeOutcome (newEvents (ss ! i) (ss ! Suc i))"
      by blast
  qed
  from closeAllLoop_run[OF run]
  have old: "length closedOrders = length (orders s)"
    "(\<forall>i a e b. Hook i onClose a (Inl e) b \<notin> set (newEvents s s')) \<longrightarrow>
            executedOrders closedOrders = placed (newEvents s s')"
    "(\<forall>x\<in>set closedOrders. x \<noteq> None) \<longrightarrow> orders s' = []"
    by simp_all
  show "\<exists>closedOrders ss. res = Some closedOrders \<and>
         length closedOrders = length (orders s) \<and>
         length ss = Suc (length (orders s)) \<and> ss ! 0 = s \<and> ss ! length (orders s) = s' \<and>
         (\<forall>i<length (orders s). orders (ss ! i) \<noteq> [] \<and>
            closeOrder ps tr rt (hd (orders (ss ! i))) (ss ! i)
              = (Inr (closedOrders ! i), ss ! Suc i) \<and>
            closedOrders ! i = closeOutcome (newEvents (ss ! i) (ss ! Suc i))) \<and>
         ((\<forall>i a e b. Hook i onClose a (Inl e) b \<notin> set (newEvents s s')) \<longrightarrow>
            executedOrders closedOrders = placed (newEvents s s')) \<and>
         ((\<forall>x\<in>set closedOrders. x \<noteq> None) \<longrightarrow> orders s' = [])"
    using res old len hd lst att by blast
next
  assume "wellFormed s \<and> currentCandle s \<noteq> None \<and> instrument s \<noteq> None"
  with closeAllLoop_returns[of "length (orders s)" s ps tr rt "[]"]
  obtain cs t where "closeAllLoop ps tr rt (length (orders s)) [] s = (Inr cs, t)" by auto
  then show "\<exists>res. fst (closeAll ps tr rt s) = Inr res"
    by (simp add: closeAll_def)
qed

text \<open>
  The three parts at the example: the empty order book; the order book with one
  executed order that an accepting transport closes; and the same order book with
  a plugin that throws and a transport that rejects.
\<close>

theorem closeAll_results_witness:
  "closeAll [] acceptingTransport exampleRuntime exampleState = (Inr None, exampleState) \<and>
   (\<exists>closedOrders.
      fst (closeAll [] acceptingTransport exampleRuntime holdingState) = Inr (Some closedOrders) \<and>
      length closedOrders = 1) \<and>
   (\<exists>res. fst (closeAll [throwingPlugin] rejectingTransport exampleRuntime holdingState) = Inr res)"
proof -
  let ?r = "closeAll [] acceptingTransport exampleRuntime holdingState"
  have 1: "orders exampleState = []" by simp
  have 2: "orders holdingState \<noteq> [] \<and>
           ?r = (Inr (Some [Some ((closePendingOrder exampleRuntime heldOrder (exampleTick 0 10)
                    exampleInstrument holdingState)\<lparr>orderId := Some (Str ''7''),
                      executedLots := lots (closePendingOrder exampleRuntime heldOrder
                         (exampleTick 0 10) exampleInstrument holdingState)\<rparr>)]), snd ?r)"
    using closeAll_runs(3) by (simp add: prod_eq_iff)
  from closeAll_results[of exampleState "[]" acceptingTransport exampleRuntime,
         THEN conjunct1, rule_format, OF 1]
  have a: "closeAll [] acceptingTransport exampleRuntime exampleState = (Inr None, exampleState)" .
  let ?x = "Some ((closePendingOrder exampleRuntime heldOrder (exampleTick 0 10)
                    exampleInstrument holdingState)\<lparr>orderId := Some (Str ''7''),
                      executedLots := lots (closePendingOrder exampleRuntime heldOrder
                         (exampleTick 0 10) exampleInstrument holdingState)\<rparr>)"
  from closeAll_results[of holdingState "[]" acceptingTransport exampleRuntime _ "snd ?r",
         THEN conjunct2, THEN conjunct1, rule_format, OF 2]
  obtain closedOrders ss where c: "Some [?x] = Some closedOrders"
    "length closedOrders = length (orders holdingState)"
    by blast
  have "fst ?r = Inr (Some closedOrders)" using closeAll_runs(3) c(1) by simp
  moreover have "length closedOrders = 1" using c(2) by simp
  ultimately have b: "\<exists>closedOrders.
      fst ?r = Inr (Some closedOrders) \<and> length closedOrders = 1"
    by blast
  have 3: "wellFormed holdingState \<and> currentCandle holdingState \<noteq> None \<and>
           instrument holdingState \<noteq> None"
    by (simp add: wellFormed_def currentCandle_def)
  from closeAll_results[of holdingState "[throwingPlugin]" rejectingTransport exampleRuntime,
         THEN conjunct2, THEN conjunct2, rule_format, OF 3]
  have c: "\<exists>res. fst (closeAll [throwingPlugin] rejectingTransport exampleRuntime holdingState)
             = Inr res" .
  from a b c show ?thesis by simp
qed

subsection \<open>C2: a hook that throws\<close>




subsection \<open>C3: the order book seen by onOpen\<close>




subsection \<open>C4: a rejected open\<close>




subsection \<open>C5: a rejected close\<close>



subsection \<open>C6: the guard of closeOrder\<close>

text \<open>
  C6 concludes that two successive close attempts on the same order submit at most
  once. That holds only while the first attempt is still running. Once it has
  completed, its \<open>finally\<close> has cleared \<open>processing\<close> and the order still has its
  \<open>orderId\<close>, so a second \<open>closeOrder\<close> on the same order passes the guard: with
  an accepting transport, two attempts one after the other on the only order of
  the book both return an executed order, and the transport is called twice.
\<close>

theorem closeOrder_twice_submits_twice:
  "trace holdingState = [] \<and>
   fst (closeOrder [] acceptingTransport exampleRuntime 0
          (snd (closeOrder [] acceptingTransport exampleRuntime 0 holdingState))) \<noteq> Inr None \<and>
   length (filter isPlaceOrder (trace (snd (closeOrder [] acceptingTransport exampleRuntime 0
          (snd (closeOrder [] acceptingTransport exampleRuntime 0 holdingState)))))) = 2 \<and>
   length (placed (trace (snd (closeOrder [] acceptingTransport exampleRuntime 0
          (snd (closeOrder [] acceptingTransport exampleRuntime 0 holdingState)))))) = 2"
  by (simp add: close_twice_run)

text \<open>
  C6, as the code has it. First part: \<open>closeOrder\<close> on an order that is marked
  \<open>processing\<close> or has no \<open>orderId\<close> returns \<open>undefined\<close> and leaves the whole
  state as it is, trace included: no hook runs and nothing is submitted. Second
  part: at every suspension point of a \<open>closeOrder\<close> (each hook invocation and the
  submission) the order is marked \<open>processing\<close>, so a second \<open>closeOrder\<close> on the
  same order that is issued there, before the first has completed, is such a
  no-op, whatever plugins, transport and runtime it runs with. Third part: one
  \<open>closeOrder\<close> submits to the transport at most once. Hence two close attempts of
  which the second is issued before the first completes submit at most once.
  Fourth part: when a \<open>closeOrder\<close> has completed, all objects are what they were
  before it, so an order that passed the guard passes it again.
\<close>

theorem closeOrder_guard:
  "(\<forall>cl. lookup (heap s) closing = Some cl \<and> (processing cl \<or> orderId cl = None) \<longrightarrow>
       closeOrder ps tr rt closing s = (Inr None, s)) \<and>
   (\<forall>ev h os t. ev \<in> set (newEvents s (snd (closeOrder ps tr rt closing s))) \<and>
       eventBook ev = Some (h, os) \<and> heap t = h \<longrightarrow>
       closeOrder ps2 tr2 rt2 closing t = (Inr None, t)) \<and>
   length (filter isPlaceOrder (newEvents s (snd (closeOrder ps tr rt closing s)))) \<le> 1 \<and>
   heap (snd (closeOrder ps tr rt closing s)) = heap s"
proof (intro conjI allI impI)
  fix cl assume "lookup (heap s) closing = Some cl \<and> (processing cl \<or> orderId cl = None)"
  then show "closeOrder ps tr rt closing s = (Inr None, s)"
    using closeOrder_guard_noop by blast
next
  fix ev h os and t :: debut
  assume a: "ev \<in> set (newEvents s (snd (closeOrder ps tr rt closing s))) \<and>
       eventBook ev = Some (h, os) \<and> heap t = h"
  obtain res s' where run: "closeOrder ps tr rt closing s = (res, s')"
    by (cases "closeOrder ps tr rt closing s") blast
  with a closeOrder_inflight[OF run, of ev h os]
  obtain cl where "lookup (heap t) closing = Some cl" "processing cl" by auto
  then show "closeOrder ps2 tr2 rt2 closing t = (Inr None, t)"
    using closeOrder_guard_noop by blast
next
  obtain res s' where run: "closeOrder ps tr rt closing s = (res, s')"
    by (cases "closeOrder ps tr rt closing s") blast
  from closeOrder_one_submission[OF run] run
  show "length (filter isPlaceOrder (newEvents s (snd (closeOrder ps tr rt closing s)))) \<le> 1"
    by simp
next
  obtain res s' where run: "closeOrder ps tr rt closing s = (res, s')"
    by (cases "closeOrder ps tr rt closing s") blast
  from closeOrder_heap[OF run] run
  show "heap (snd (closeOrder ps tr rt closing s)) = heap s"
    by simp
qed

text \<open>
  A pending order, and the state in which an accepting transport is called while
  the only order of the book is being closed.
\<close>

theorem closeOrder_guard_witness:
  "closeOrder [] acceptingTransport exampleRuntime 0 pendingState = (Inr None, pendingState) \<and>
   closeOrder [] acceptingTransport exampleRuntime 0
       (holdingState\<lparr>heap := [heldOrder\<lparr>processing := True\<rparr>], orders := []\<rparr>)
     = (Inr None, holdingState\<lparr>heap := [heldOrder\<lparr>processing := True\<rparr>], orders := []\<rparr>)"
proof -
  let ?c = "closeOrder [] acceptingTransport exampleRuntime 0 holdingState"
  let ?po = "closePendingOrder exampleRuntime heldOrder (exampleTick 0 10) exampleInstrument
                    holdingState"
  let ?ev = "PlaceOrder ?po (Inr (?po\<lparr>orderId := Some (Str ''7''), executedLots := lots ?po\<rparr>))
        ([heldOrder\<lparr>processing := True\<rparr>], [])"
  let ?t = "holdingState\<lparr>heap := [heldOrder\<lparr>processing := True\<rparr>], orders := []\<rparr>"
  have 1: "lookup (heap pendingState) 0 = Some examplePending \<and>
           (processing examplePending \<or> orderId examplePending = None)"
    by (simp add: lookup_def)
  have 2: "?ev \<in> set (newEvents holdingState (snd ?c)) \<and>
           eventBook ?ev = Some ([heldOrder\<lparr>processing := True\<rparr>], []) \<and>
           heap ?t = [heldOrder\<lparr>processing := True\<rparr>]"
    by (simp add: close_run newEvents_def)
  from closeOrder_guard[of pendingState 0 "[]" acceptingTransport exampleRuntime,
         THEN conjunct1, rule_format, OF 1]
       closeOrder_guard[of holdingState 0 "[]" acceptingTransport exampleRuntime
                           "[]" acceptingTransport exampleRuntime,
         THEN conjunct2, THEN conjunct1, rule_format, OF 2]
  show ?thesis by simp
qed

subsection \<open>C7: a vetoed open\<close>

text \<open>
  C7. If during \<open>createOrder\<close> the \<open>onBeforeOpen\<close> hook of plugin \<open>j\<close> returns a
  truthy value, then \<open>createOrder\<close> returns \<open>undefined\<close> and raises nothing, the
  order book and the heap are unchanged, and all that the operation did to the
  outside is to invoke \<open>onBeforeOpen\<close> of plugins registered before \<open>j\<close>, which
  returned falsy values, and then of \<open>j\<close>: no later plugin runs, and the
  transport is not called.
\<close>

theorem createOrder_veto:
  assumes "createOrder ps tr rt operation s = (res, s')"
      and "Hook j onBeforeOpen a (Inr True) b \<in> set (newEvents s s')"
  shows "res = Inr None \<and> orders s' = orders s \<and> heap s' = heap s \<and>
         (\<exists>pre. trace s' = trace s @ pre @ [Hook j onBeforeOpen a (Inr True) b] \<and>
                (\<forall>ev\<in>set pre. \<exists>i<j. ev = Hook i onBeforeOpen a (Inr False) b))"
  using assms(1)
proof (cases rule: createOrder_cases)
  case (Vetoed cur ins po pre j')
  from assms(2) Vetoed have "Hook j onBeforeOpen a (Inr True) b = Hook j' onBeforeOpen (OrderArgs po) (Inr True) (snapshot s)"
    by (auto simp: passedBelow_def)
  with Vetoed show ?thesis by (auto simp: passedBelow_def)
next
  case (Opened cur ins po pre ord mid)
  with assms(2) newEvents_replace[where s=s and r="Suc (length (heap s))" and ord="ord"
      and t="s\<lparr>heap := heap s @ [po, ord], orders := orders s @ [length (heap s)]\<rparr>"
      and evs="pre @ [PlaceOrder po (Inr ord) (heap s @ [po], orders s @ [length (heap s)])] @ mid"]
  show ?thesis by (auto simp: passedBelow_def returnedBelow_def)
qed (use assms(2) in \<open>auto simp: passedBelow_def returnedBelow_def newEvents_def\<close>)

text \<open>A plugin whose \<open>onBeforeOpen\<close> returns \<open>true\<close>.\<close>

theorem createOrder_veto_witness:
  "fst (createOrder [vetoPlugin] acceptingTransport exampleRuntime BUY exampleState) = Inr None \<and>
   orders (snd (createOrder [vetoPlugin] acceptingTransport exampleRuntime BUY exampleState)) = [] \<and>
   trace (snd (createOrder [vetoPlugin] acceptingTransport exampleRuntime BUY exampleState)) =
     [Hook 0 onBeforeOpen (OrderArgs examplePending) (Inr True) ([], [])]"
proof -
  let ?c = "createOrder [vetoPlugin] acceptingTransport exampleRuntime BUY exampleState"
  have 1: "?c = (fst ?c, snd ?c)" by (rule surjective_pairing)
  have 2: "Hook 0 onBeforeOpen (OrderArgs examplePending) (Inr True) ([], [])
             \<in> set (newEvents exampleState (snd ?c))"
    by (simp add: veto_run newEvents_def)
  from createOrder_veto[OF 1 2] show ?thesis by (simp add: veto_run)
qed

subsection \<open>C8: the candle window\<close>

text \<open>
  C8. After any sequence of ticks fed to a newly constructed engine, with any
  plugins, the candle window holds at most ten candles; inserting a candle into it
  puts the candle at the front and, when the window is full, drops the candle at
  the highest index, whichever version of \<open>updateCandles\<close> is installed; and the
  window holds at most ten candles after the insertion as well.
\<close>

theorem candle_window_bounded:
  assumes "constructor nm input = Inr s0"
  shows "length (candles (feed ps ticks s0)) \<le> 10 \<and>
         candles (updateCandles tick (feed ps ticks s0)) =
           (if length (candles (feed ps ticks s0)) = 10
            then tick # butlast (candles (feed ps ticks s0))
            else tick # candles (feed ps ticks s0)) \<and>
         length (candles (updateCandles tick (feed ps ticks s0))) \<le> 10"
proof -
  have "windowOk s0" using constructor_fresh[OF assms] by (simp add: windowOk_def)
  then have w: "windowOk (feed ps ticks s0)" by (rule feed_windowOk)
  then have w': "windowOk (updateCandles tick (feed ps ticks s0))"
    by (rule windowOk_updateCandles)
  from w w' show ?thesis
    by (auto simp: windowOk_def updateCandles_def)
qed

text \<open>
  Twelve ticks with twelve different timestamps: the window holds the ten newest,
  and a thirteenth candle takes the place of the oldest of them.
\<close>

theorem candle_window_bounded_witness:
  "candles (feed [] (map (\<lambda>n. exampleTick (real n) 1) [0, 1, 2, 3, 4, 5, 6, 7, 8, 9, 10, 11])
              startState)
     = map (\<lambda>n. exampleTick (real n) 1) [11, 10, 9, 8, 7, 6, 5, 4, 3, 2] \<and>
   length (candles (feed [] (map (\<lambda>n. exampleTick (real n) 1)
              [0, 1, 2, 3, 4, 5, 6, 7, 8, 9, 10, 11]) startState)) \<le> 10 \<and>
   candles (updateCandles (exampleTick 12 1)
      (feed [] (map (\<lambda>n. exampleTick (real n) 1) [0, 1, 2, 3, 4, 5, 6, 7, 8, 9, 10, 11])
              startState))
     = map (\<lambda>n. exampleTick (real n) 1) [12, 11, 10, 9, 8, 7, 6, 5, 4, 3]"
proof -
  let ?s = "feed [] (map (\<lambda>n. exampleTick (real n) 1) [0, 1, 2, 3, 4, 5, 6, 7, 8, 9, 10, 11])
              startState"
  note th = candle_window_bounded[OF constructor_example, of "[]"
      "map (\<lambda>n. exampleTick (real n) 1) [0, 1, 2, 3, 4, 5, 6, 7, 8, 9, 10, 11]" "exampleTick 12 1"]
  from th have a: "length (candles ?s) \<le> 10"
    and b: "candles (updateCandles (exampleTick 12 1) ?s) =
              (if length (candles ?s) = 10 then exampleTick 12 1 # butlast (candles ?s)
               else exampleTick 12 1 # candles ?s)"
    by blast+
  have c: "candles ?s = map (\<lambda>n. exampleTick (real n) 1) [11, 10, 9, 8, 7, 6, 5, 4, 3, 2]"
    by (rule window_run)
  have "candles (updateCandles (exampleTick 12 1) ?s)
          = map (\<lambda>n. exampleTick (real n) 1) [12, 11, 10, 9, 8, 7, 6, 5, 4, 3]"
    unfolding b c by simp
  with a c show ?thesis by blast
qed

subsection \<open>C9: three ticks\<close>

text \<open>
  C9 asks of the plugins only that none vetoes. A plugin that vetoes nothing and
  whose \<open>onAfterCandle\<close> hook throws ends the handler of the third tick before
  \<open>updateCandles\<close>: after the three ticks the window holds one candle, the current
  candle has close 11 and there is no candle at index 1.
\<close>

theorem failing_hook_scenario:
  "failingPlugin onBeforeTick = None \<and>
   candles (feed [failingPlugin] [exampleTick 0 10, exampleTick 0 11, exampleTick 60 12] startState)
     = [exampleTick 0 11] \<and>
   prevCandle (feed [failingPlugin] [exampleTick 0 10, exampleTick 0 11, exampleTick 60 12]
      startState) = None \<and>
   map_option candle_c (currentCandle (feed [failingPlugin]
      [exampleTick 0 10, exampleTick 0 11, exampleTick 60 12] startState)) = Some 11"
proof -
  have "failingPlugin onBeforeTick = None" by (simp add: failingPlugin_def)
  moreover have "candle_c (exampleTick 0 11) = 11" by (simp add: exampleTick_def)
  ultimately show ?thesis
    unfolding prevCandle_def currentCandle_def failing_tick_run(1) by simp
qed

text \<open>
  C9, as the code has it. Ticks \<open>t1\<close> (time 0, close 10), \<open>t2\<close> (time 0, close 11) and \<open>t3\<close> (time 60,
  open and close 12) are fed to a newly constructed engine whose plugins neither
  veto a tick nor throw. After the second tick the current candle has close 11,
  there is no previous candle and \<open>onCandle\<close> has not been invoked. After the third
  tick the previous candle, at index 1, is \<open>t2\<close> with close 11, the current
  candle, at index 0, is \<open>t3\<close> with open and close 12, and \<open>onCandle\<close> has been
  invoked exactly once for every plugin that implements it, and never for another,
  each time with the closed candle \<open>t2\<close>.
\<close>

theorem three_tick_scenario:
  assumes init: "constructor nm input = Inr s0"
      and ticks: "candle_time t1 = 0" "candle_c t1 = 10" "candle_time t2 = 0" "candle_c t2 = 11"
                 "candle_time t3 = 60" "candle_o t3 = 12" "candle_c t3 = 12"
      and quiet: "\<forall>ev\<in>set (trace (feed ps [t1, t2, t3] s0)). \<not> stops ev"
  shows "map_option candle_c (currentCandle (feed ps [t1, t2] s0)) = Some 11 \<and>
         prevCandle (feed ps [t1, t2] s0) = None \<and>
         hookCalls onCandle (trace (feed ps [t1, t2] s0)) = [] \<and>
         prevCandle (feed ps [t1, t2, t3] s0) = Some t2 \<and>
         map_option candle_c (prevCandle (feed ps [t1, t2, t3] s0)) = Some 11 \<and>
         currentCandle (feed ps [t1, t2, t3] s0) = Some t3 \<and>
         map_option candle_o (currentCandle (feed ps [t1, t2, t3] s0)) = Some 12 \<and>
         map_option candle_c (currentCandle (feed ps [t1, t2, t3] s0)) = Some 12 \<and>
         (\<forall>call\<in>set (hookCalls onCandle (trace (feed ps [t1, t2, t3] s0))).
             snd call = CandleArgs (Some t2)) \<and>
         (\<forall>i. count_list (map fst (hookCalls onCandle (trace (feed ps [t1, t2, t3] s0)))) i =
               (if i < length ps \<and> (ps ! i) onCandle \<noteq> None then 1 else 0))"
proof -
  obtain r1 s1 where h1: "handler ps t1 s0 = (r1, s1)" by (cases "handler ps t1 s0") blast
  obtain r2 s2 where h2: "handler ps t2 s1 = (r2, s2)" by (cases "handler ps t2 s1") blast
  obtain r3 s3 where h3: "handler ps t3 s2 = (r3, s3)" by (cases "handler ps t3 s2") blast
  have f2: "feed ps [t1, t2] s0 = s2" using h1 h2 by simp
  have f3: "feed ps [t1, t2, t3] s0 = s3" using h1 h2 h3 by simp
  note fresh = constructor_fresh[OF init]
  note tr1 = handler_trace[OF h1] and tr2 = handler_trace[OF h2] and tr3 = handler_trace[OF h3]
  have tr: "trace s1 = newEvents s0 s1" "trace s2 = newEvents s0 s1 @ newEvents s1 s2"
    "trace s3 = newEvents s0 s1 @ newEvents s1 s2 @ newEvents s2 s3"
    using tr1 tr2 tr3 fresh(3) by simp_all
  from quiet have q: "\<forall>ev\<in>set (newEvents s0 s1). \<not> stops ev"
    "\<forall>ev\<in>set (newEvents s1 s2). \<not> stops ev" "\<forall>ev\<in>set (newEvents s2 s3). \<not> stops ev"
    unfolding f3 tr by auto
  have ch1: "\<not> change t1 s0" using fresh by (simp add: change_def currentCandle_def)
  note q1 = handler_quiet[OF h1 q(1)]
  have c1: "candles s1 = [t1]" "\<not> updateCandlesSwapped s1" "hookCalls onCandle (newEvents s0 s1) = []"
    using q1 ch1 fresh by (simp_all add: setCurrent_def)
  have ch2: "\<not> change t2 s1" using c1 ticks by (simp add: change_def currentCandle_def)
  note q2 = handler_quiet[OF h2 q(2)]
  have c2: "candles s2 = [t2]" "\<not> updateCandlesSwapped s2" "hookCalls onCandle (newEvents s1 s2) = []"
    using q2 ch2 c1 by (simp_all add: setCurrent_def)
  have ch3: "change t3 s2" using c2 ticks by (simp add: change_def currentCandle_def)
  note q3 = handler_quiet[OF h3 q(3)]
  have c3: "candles s3 = [t3, t2]"
    "hookCalls onCandle (newEvents s2 s3) = map (\<lambda>j. (j, CandleArgs (Some t2))) (attendees 0 ps onCandle)"
    using q3 ch3 c2 by (simp_all add: updateCandles_def currentCandle_def)
  have calls2: "hookCalls onCandle (trace s2) = []" using tr c1 c2 by simp
  have calls3: "hookCalls onCandle (trace s3)
                  = map (\<lambda>j. (j, CandleArgs (Some t2))) (attendees 0 ps onCandle)"
    using tr c1 c2 c3 by simp
  have fst3: "map fst (hookCalls onCandle (trace s3)) = attendees 0 ps onCandle"
    unfolding calls3 by (simp add: comp_def)
  show ?thesis
    unfolding f2 f3 fst3 attendees_count
    using c2 c3 ticks calls2 calls3
    by (auto simp: currentCandle_def prevCandle_def)
qed

text \<open>One plugin that implements \<open>onCandle\<close>.\<close>

theorem three_tick_scenario_witness:
  "currentCandle (feed [observerPlugin] [exampleTick 0 10, exampleTick 0 11, exampleTick 60 12]
      startState) = Some (exampleTick 60 12) \<and>
   prevCandle (feed [observerPlugin] [exampleTick 0 10, exampleTick 0 11, exampleTick 60 12]
      startState) = Some (exampleTick 0 11) \<and>
   count_list (map fst (hookCalls onCandle (trace (feed [observerPlugin]
      [exampleTick 0 10, exampleTick 0 11, exampleTick 60 12] startState)))) 0 = 1"
proof -
  let ?s3 = "feed [observerPlugin] [exampleTick 0 10, exampleTick 0 11, exampleTick 60 12] startState"
  have t: "candle_time (exampleTick 0 10) = 0" "candle_c (exampleTick 0 10) = 10"
    "candle_time (exampleTick 0 11) = 0" "candle_c (exampleTick 0 11) = 11"
    "candle_time (exampleTick 60 12) = 60" "candle_o (exampleTick 60 12) = 12"
    "candle_c (exampleTick 60 12) = 12"
    by (simp_all add: exampleTick_def)
  have q: "\<forall>ev\<in>set (trace ?s3). \<not> stops ev"
    unfolding tick_run by simp
  note th = three_tick_scenario[OF constructor_example t q]
  from th have p: "prevCandle ?s3 = Some (exampleTick 0 11)"
    and c: "currentCandle ?s3 = Some (exampleTick 60 12)"
    and n: "count_list (map fst (hookCalls onCandle (trace ?s3))) 0 =
               (if 0 < length [observerPlugin] \<and> ([observerPlugin] ! 0) onCandle \<noteq> None
                then 1 else 0)"
    by blast+
  have "(if 0 < length [observerPlugin] \<and> ([observerPlugin] ! 0) onCandle \<noteq> None
                then 1 else 0) = (1::nat)"
    by (simp add: observerPlugin_def)
  with n have "count_list (map fst (hookCalls onCandle (trace ?s3))) 0 = 1" by (simp only:)
  with p c show ?thesis by blast
qed

subsection \<open>C10: the options of a new engine\<close>

text \<open>
  C10. When the constructor returns an engine, its options are the defaults
  overridden by the input: a key of the input keeps the value of the input, a key
  that the input lacks has the default, if there is one. The defaults are
  \<open>instrumentType = 'SPOT'\<close>, \<open>fee = 0.0003\<close>, \<open>lotsMultiplier = 1\<close> and
  \<open>equityLevel = 1\<close>, and no others. The constructor throws if and only if
  \<open>instrumentType\<close> is \<open>'FUTURES'\<close> and \<open>broker\<close> is not \<open>'binance'\<close>, and what
  it throws is the Core error about futures.
\<close>

theorem constructor_options:
  "(\<forall>s. constructor nm input = Inr s \<longrightarrow>
       opts s = defaultOptions ++ input \<and>
       (\<forall>k v. input k = Some v \<longrightarrow> opts s k = Some v) \<and>
       (\<forall>k. input k = None \<longrightarrow> opts s k = defaultOptions k)) \<and>
   defaultOptions ''instrumentType'' = Some (Str ''SPOT'') \<and>
   defaultOptions ''fee'' = Some (Num (3 / 10000)) \<and>
   defaultOptions ''lotsMultiplier'' = Some (Num 1) \<and>
   defaultOptions ''equityLevel'' = Some (Num 1) \<and>
   dom defaultOptions = {''instrumentType'', ''fee'', ''lotsMultiplier'', ''equityLevel''} \<and>
   ((\<exists>e. constructor nm input = Inl e) \<longleftrightarrow>
      input ''instrumentType'' = Some (Str ''FUTURES'') \<and> getProp input ''broker'' \<noteq> Str ''binance'') \<and>
   (\<forall>e. constructor nm input = Inl e \<longrightarrow> e = DebutError Core FuturesOnlyBinance)"
proof -
  have merged: "getProp (defaultOptions ++ input) ''broker'' = getProp input ''broker''"
    by (simp add: getProp_def defaultOptions_def map_add_def split: option.splits)
  have it: "getProp (defaultOptions ++ input) ''instrumentType'' = Str ''FUTURES''
              \<longleftrightarrow> input ''instrumentType'' = Some (Str ''FUTURES'')"
    by (auto simp add: getProp_def defaultOptions_def map_add_def split: option.splits)
  show ?thesis
    using merged it
    by (auto simp: constructor_def validateConfig_def createCoreError_def Let_def map_add_def
                   defaultOptions_def dom_def
             split: option.splits if_splits)
qed

text \<open>The example options, and futures on another broker.\<close>

theorem constructor_options_witness:
  "opts startState ''broker'' = Some (Str ''binance'') \<and>
   opts startState ''fee'' = Some (Num (3 / 10000)) \<and>
   constructor ''Strategy'' futuresOptions = Inl (DebutError Core FuturesOnlyBinance)"
proof -
  have 1: "exampleOptions ''broker'' = Some (Str ''binance'')" "exampleOptions ''fee'' = None"
    by (simp_all add: exampleOptions_def)
  have 2: "futuresOptions ''instrumentType'' = Some (Str ''FUTURES'') \<and>
           getProp futuresOptions ''broker'' \<noteq> Str ''binance''"
    by (simp add: futuresOptions_def getProp_def)
  note c1 = constructor_options[of "''Strategy''" exampleOptions, THEN conjunct1, rule_format,
              OF constructor_example]
  from c1 1(1) have "opts startState ''broker'' = Some (Str ''binance'')" by blast
  moreover from c1 1(2) have "opts startState ''fee'' = defaultOptions ''fee''" by blast
  moreover have "defaultOptions ''fee'' = Some (Num (3 / 10000))"
    using constructor_options[of "''Strategy''" exampleOptions] by blast
  ultimately have a: "opts startState ''broker'' = Some (Str ''binance'') \<and>
           opts startState ''fee'' = Some (Num (3 / 10000))"
    by simp
  from constructor_options[of "''Strategy''" futuresOptions] 2
  have b: "constructor ''Strategy'' futuresOptions = Inl (DebutError Core FuturesOnlyBinance)"
    by blast
  from a b show ?thesis by simp
qed


end
